theory Spec2Isabelle
  imports Main
begin

section \<open>The page's state\<close>

text \<open>
  The script \<^verbatim>\<open>assets/js/script.js\<close> wires event handlers to the elements of one
  document. The model is a record of the parts of the document the handlers read and
  write, and one function per listener that takes the record and returns it updated.
  An element the script looks up with \<^verbatim>\<open>querySelector\<close> is an option (\<open>None\<close> is
  JavaScript's \<^verbatim>\<open>null\<close>), a \<^verbatim>\<open>querySelectorAll\<close> result is a list, and an
  element of such a list is named by its index. Strings are byte strings; the two case
  conversions are the ASCII ones. Pending \<^verbatim>\<open>setTimeout\<close> callbacks are data: a
  list of timers that an explicit event loop fires in due order.

  Modelled are the theme toggle, the testimonials modal, the portfolio filter, the contact
  form and the page navigation. The sidebar, the scroll handlers, the observers, the
  mobile menu and the preloader are not, nor are the blur listeners of the inputs, focus
  and scrolling apart from the focus on the modal's close button.
\<close>

type_synonym classList = "string set"

definition classList_toggle :: "string \<Rightarrow> classList \<Rightarrow> classList" where
  "classList_toggle c cl = (if c \<in> cl then cl - {c} else insert c cl)"

datatype js_error = TypeError

datatype 'a outcome = Completed 'a | Threw js_error 'a

text \<open>
  \<^verbatim>\<open>String.prototype.toLowerCase\<close> and \<^verbatim>\<open>toUpperCase\<close> on ASCII letters; every
  other byte stays as it is, so the two functions are JavaScript's on ASCII strings only.
\<close>

definition lower_char :: "char \<Rightarrow> char" where
  "lower_char c =
     (if 65 \<le> (of_char c :: nat) \<and> (of_char c :: nat) \<le> 90
      then char_of ((of_char c :: nat) + 32) else c)"

definition upper_char :: "char \<Rightarrow> char" where
  "upper_char c =
     (if 97 \<le> (of_char c :: nat) \<and> (of_char c :: nat) \<le> 122
      then char_of ((of_char c :: nat) - 32) else c)"

definition toLowerCase :: "string \<Rightarrow> string" where
  "toLowerCase s = map lower_char s"

definition toUpperCase :: "string \<Rightarrow> string" where
  "toUpperCase s = map upper_char s"

text \<open>The callbacks the script hands to \<^verbatim>\<open>setTimeout\<close>.\<close>

datatype action =
    Reveal nat
  | Later nat
  | SubmitSent "string option"
  | SubmitReset "string option"

record timer =
  timer_id :: nat
  due :: nat
  callback :: action

record toggle_button =
  icon :: "classList option"

record img =
  src :: string
  alt :: string

record testimonial =
  avatar :: "img option"
  item_title :: "string option"
  item_text :: "string option"

record filter_btn =
  btn_innerText :: string
  btn_classes :: classList

record filter_item =
  category :: "string option"
  item_classes :: classList

record form_input =
  input_value :: string
  defaultValue :: string
  required :: bool
  format_ok :: "string \<Rightarrow> bool"
  input_classes :: classList
  timeout :: "nat option"

record submit_btn =
  disabled :: bool
  btn_innerHTML :: string

record nav_link =
  link_innerHTML :: string
  link_classes :: classList

record page =
  data_page :: string
  page_classes :: classList

record dom =
  now :: nat
  next_timer :: nat
  timers :: "timer list"
  themeToggle :: "toggle_button option"
  data_theme :: "string option"
  localStorage :: "string \<rightharpoonup> string"
  body_transition :: "string option"
  body_classes :: classList
  testimonialsItems :: "testimonial list"
  modalContainer :: "classList option"
  modalCloseBtn :: bool
  closeBtn_focused :: bool
  overlay :: "classList option"
  modalImg :: "img option"
  modalTitle :: "string option"
  modalText :: "string option"
  select :: "classList option"
  selectItems :: "string list"
  selectValue :: "string option"
  filterBtns :: "filter_btn list"
  lastClickedBtn :: "nat option"
  filterItems :: "filter_item list"
  form :: bool
  formInputs :: "form_input list"
  formBtn :: "submit_btn option"
  navigationLinks :: "nav_link list"
  pages :: "page list"
  title :: string
  location_hash :: string

text \<open>\<^verbatim>\<open>nodeList.forEach(f)\<close>: the callback runs on the indices in order.\<close>

definition forEach :: "nat \<Rightarrow> (nat \<Rightarrow> 's \<Rightarrow> 's) \<Rightarrow> 's \<Rightarrow> 's" where
  "forEach n f s = fold f [0..<n] s"

section \<open>Theme toggle\<close>

text \<open>
  \<^verbatim>\<open>const currentTheme = localStorage.getItem('theme') || 'dark'\<close>: a missing key and
  the empty string both give the default.
\<close>

definition stored_theme :: "dom \<Rightarrow> string" where
  "stored_theme s =
     (case localStorage s ''theme'' of
        None \<Rightarrow> ''dark''
      | Some v \<Rightarrow> if v = [] then ''dark'' else v)"

definition updateThemeIcon :: "string \<Rightarrow> dom \<Rightarrow> dom" where
  "updateThemeIcon theme s =
     (case themeToggle s of
        None \<Rightarrow> s
      | Some b \<Rightarrow>
          (case icon b of
             None \<Rightarrow> s
           | Some cl \<Rightarrow>
               s\<lparr>themeToggle := Some (b\<lparr>icon := Some
                  (insert (if theme = ''dark'' then ''fa-moon'' else ''fa-sun'')
                     (cl - {''fa-sun'', ''fa-moon''}))\<rparr>)\<rparr>))"

definition load_theme :: "dom \<Rightarrow> dom" where
  "load_theme s =
     (let currentTheme = stored_theme s
      in updateThemeIcon currentTheme (s\<lparr>data_theme := Some currentTheme\<rparr>))"

text \<open>The click handler of \<^verbatim>\<open>#themeToggle\<close>; without the element nothing listens.\<close>

definition themeToggle_click :: "dom \<Rightarrow> dom" where
  "themeToggle_click s =
     (case themeToggle s of
        None \<Rightarrow> s
      | Some _ \<Rightarrow>
          (let theme = (if data_theme s = Some ''dark'' then ''light'' else ''dark'');
               s1 = s\<lparr>data_theme := Some theme\<rparr>;
               s2 = s1\<lparr>localStorage := (localStorage s1)(''theme'' \<mapsto> theme)\<rparr>;
               s3 = updateThemeIcon theme s2
           in s3\<lparr>body_transition := Some ''background-color 0.3s ease, color 0.3s ease''\<rparr>))"

section \<open>Testimonials modal\<close>

definition is_active :: "classList option \<Rightarrow> bool" where
  "is_active e = (case e of None \<Rightarrow> False | Some cl \<Rightarrow> ''active'' \<in> cl)"

text \<open>
  \<^verbatim>\<open>testimonialsModalFunc\<close>: the optional chaining skips an element that is absent;
  \<^verbatim>\<open>document.body\<close> is always there.
\<close>

definition testimonialsModalFunc :: "dom \<Rightarrow> dom" where
  "testimonialsModalFunc s =
     (let s1 = s\<lparr>modalContainer := map_option (classList_toggle ''active'') (modalContainer s)\<rparr>;
          s2 = s1\<lparr>overlay := map_option (classList_toggle ''active'') (overlay s1)\<rparr>;
          s3 = s2\<lparr>body_classes := classList_toggle ''no-scroll'' (body_classes s2)\<rparr>
      in if is_active (modalContainer s3) \<and> modalCloseBtn s3
         then s3\<lparr>closeBtn_focused := True\<rparr> else s3)"

text \<open>The three guarded copies at the head of a testimonial item's click handler.\<close>

definition copy_testimonial :: "testimonial \<Rightarrow> dom \<Rightarrow> dom" where
  "copy_testimonial item s =
     (let s1 = (case (modalImg s, avatar item) of
                  (Some _, Some a) \<Rightarrow> s\<lparr>modalImg := Some \<lparr>src = src a, alt = alt a\<rparr>\<rparr>
                | _ \<Rightarrow> s);
          s2 = (case (modalTitle s1, item_title item) of
                  (Some _, Some t) \<Rightarrow> s1\<lparr>modalTitle := Some t\<rparr>
                | _ \<Rightarrow> s1)
      in (case (modalText s2, item_text item) of
            (Some _, Some t) \<Rightarrow> s2\<lparr>modalText := Some t\<rparr>
          | _ \<Rightarrow> s2))"

definition testimonialsItem_click :: "nat \<Rightarrow> dom \<Rightarrow> dom" where
  "testimonialsItem_click i s =
     (if i < length (testimonialsItems s)
      then testimonialsModalFunc (copy_testimonial (testimonialsItems s ! i) s)
      else s)"

definition modalCloseBtn_click :: "dom \<Rightarrow> dom" where
  "modalCloseBtn_click s = (if modalCloseBtn s then testimonialsModalFunc s else s)"

definition overlay_click :: "dom \<Rightarrow> dom" where
  "overlay_click s = (if overlay s = None then s else testimonialsModalFunc s)"

definition keydown :: "string \<Rightarrow> dom \<Rightarrow> dom" where
  "keydown key s =
     (if key = ''Escape'' \<and> is_active (modalContainer s) then testimonialsModalFunc s else s)"

datatype modal_op = ItemClick nat | CloseBtnClick | OverlayClick | EscapeKey

fun modal_step :: "modal_op \<Rightarrow> dom \<Rightarrow> dom" where
  "modal_step (ItemClick i) s = testimonialsItem_click i s"
| "modal_step CloseBtnClick s = modalCloseBtn_click s"
| "modal_step OverlayClick s = overlay_click s"
| "modal_step EscapeKey s = keydown ''Escape'' s"

text \<open>What the modal shows: image source and alternative text, title markup, body markup.\<close>

definition modal_content :: "dom \<Rightarrow> img option \<times> string option \<times> string option" where
  "modal_content s = (modalImg s, modalTitle s, modalText s)"

definition testimonial_content :: "testimonial \<Rightarrow> img option \<times> string option \<times> string option" where
  "testimonial_content item = (avatar item, item_title item, item_text item)"

section \<open>Timers\<close>

text \<open>
  \<^verbatim>\<open>setTimeout(f, d)\<close> registers a timer due \<open>d\<close> milliseconds from now and returns
  its id, a fresh number; \<^verbatim>\<open>clearTimeout\<close> drops the timer of that id, if it is still
  pending, and ignores \<^verbatim>\<open>undefined\<close>.
\<close>

definition setTimeout :: "action \<Rightarrow> nat \<Rightarrow> dom \<Rightarrow> dom" where
  "setTimeout f d s =
     s\<lparr>timers := timers s @ [\<lparr>timer_id = next_timer s, due = now s + d, callback = f\<rparr>],
       next_timer := Suc (next_timer s)\<rparr>"

definition clearTimeout :: "nat option \<Rightarrow> dom \<Rightarrow> dom" where
  "clearTimeout t s =
     (case t of
        None \<Rightarrow> s
      | Some i \<Rightarrow> s\<lparr>timers := filter (\<lambda>tm. timer_id tm \<noteq> i) (timers s)\<rparr>)"

section \<open>Portfolio filter\<close>

text \<open>\<^verbatim>\<open>elementToggleFunc(elem)\<close> reads \<^verbatim>\<open>elem.classList\<close>, which throws on \<^verbatim>\<open>null\<close>.\<close>

definition elementToggleFunc :: "classList option \<Rightarrow> js_error + classList" where
  "elementToggleFunc elem =
     (case elem of
        None \<Rightarrow> Inl TypeError
      | Some cl \<Rightarrow> Inr (classList_toggle ''active'' cl))"

definition select_click :: "dom \<Rightarrow> dom" where
  "select_click s =
     (case elementToggleFunc (select s) of
        Inl _ \<Rightarrow> s
      | Inr cl \<Rightarrow> s\<lparr>select := Some cl\<rparr>)"

definition filter_matches :: "string \<Rightarrow> filter_item \<Rightarrow> bool" where
  "filter_matches selectedValue item =
     (selectedValue = ''all'' \<or> Some selectedValue = category item)"

definition filter_step :: "string \<Rightarrow> nat \<Rightarrow> dom \<Rightarrow> dom" where
  "filter_step selectedValue k s =
     (let item = filterItems s ! k
      in if filter_matches selectedValue item
         then setTimeout (Reveal k) 50 s
         else s\<lparr>filterItems := (filterItems s)
                 [k := item\<lparr>item_classes := item_classes item - {''active''}\<rparr>]\<rparr>)"

definition filterFunc :: "string \<Rightarrow> dom \<Rightarrow> dom" where
  "filterFunc selectedValue s =
     forEach (length (filterItems s)) (filter_step selectedValue) s"

definition set_selectValue :: "string \<Rightarrow> dom \<Rightarrow> dom" where
  "set_selectValue txt s =
     (case selectValue s of None \<Rightarrow> s | Some _ \<Rightarrow> s\<lparr>selectValue := Some txt\<rparr>)"

text \<open>
  The click handler of the \<open>i\<close>-th \<^verbatim>\<open>[data-select-item]\<close>. The call
  \<^verbatim>\<open>elementToggleFunc(select)\<close> is not guarded: without a \<^verbatim>\<open>[data-select]\<close>
  element the handler throws after it has written the displayed value.
\<close>

definition selectItem_click :: "nat \<Rightarrow> dom \<Rightarrow> dom outcome" where
  "selectItem_click i s =
     (if i < length (selectItems s)
      then (let txt = selectItems s ! i;
                selectedValue = toLowerCase txt;
                s1 = set_selectValue txt s
            in (case elementToggleFunc (select s1) of
                  Inl e \<Rightarrow> Threw e s1
                | Inr cl \<Rightarrow> Completed (filterFunc selectedValue (s1\<lparr>select := Some cl\<rparr>))))
      else Completed s)"

text \<open>\<^verbatim>\<open>let lastClickedBtn = filterBtns[0]\<close>: \<^verbatim>\<open>undefined\<close> for an empty list.\<close>

definition init_lastClickedBtn :: "dom \<Rightarrow> dom" where
  "init_lastClickedBtn s =
     s\<lparr>lastClickedBtn := (if filterBtns s = [] then None else Some 0)\<rparr>"

definition btn_set_active :: "bool \<Rightarrow> nat \<Rightarrow> dom \<Rightarrow> dom" where
  "btn_set_active on k s =
     (let b = filterBtns s ! k
      in s\<lparr>filterBtns := (filterBtns s)
             [k := b\<lparr>btn_classes := (if on then insert ''active'' (btn_classes b)
                                      else btn_classes b - {''active''})\<rparr>]\<rparr>)"

definition filterBtn_click :: "nat \<Rightarrow> dom \<Rightarrow> dom" where
  "filterBtn_click i s =
     (if i < length (filterBtns s)
      then (let txt = btn_innerText (filterBtns s ! i);
                selectedValue = toLowerCase txt;
                s1 = set_selectValue txt s;
                s2 = filterFunc selectedValue s1;
                s3 = (case lastClickedBtn s2 of
                        None \<Rightarrow> s2
                      | Some j \<Rightarrow> btn_set_active False j s2);
                s4 = btn_set_active True i s3
            in s4\<lparr>lastClickedBtn := Some i\<rparr>)
      else s)"

section \<open>Contact form\<close>

text \<open>
  \<^verbatim>\<open>form.checkValidity()\<close> is the browser's constraint validation: a required control
  with an empty value is invalid, an empty control that is not required is valid, and a
  non-empty value has to meet the control's format constraints (type, pattern, length),
  which the model takes as the control's \<open>format_ok\<close>. The controls of the form are the
  \<^verbatim>\<open>[data-form-input]\<close> elements.
\<close>

definition input_valid :: "form_input \<Rightarrow> bool" where
  "input_valid inp =
     (if input_value inp = [] then \<not> required inp else format_ok inp (input_value inp))"

definition checkValidity :: "dom \<Rightarrow> bool" where
  "checkValidity s = list_all input_valid (formInputs s)"

definition set_disabled :: "bool \<Rightarrow> dom \<Rightarrow> dom" where
  "set_disabled d s = s\<lparr>formBtn := map_option (\<lambda>b. b\<lparr>disabled := d\<rparr>) (formBtn s)\<rparr>"

definition set_btn_innerHTML :: "string \<Rightarrow> dom \<Rightarrow> dom" where
  "set_btn_innerHTML h s = s\<lparr>formBtn := map_option (\<lambda>b. b\<lparr>btn_innerHTML := h\<rparr>) (formBtn s)\<rparr>"

text \<open>\<^verbatim>\<open>form?.checkValidity()\<close> is \<^verbatim>\<open>undefined\<close>, hence false, without a form.\<close>

definition validateForm :: "dom \<Rightarrow> dom" where
  "validateForm s =
     (if form s \<and> checkValidity s then set_disabled False s else set_disabled True s)"

text \<open>
  Each input has a \<^verbatim>\<open>debounce(validateForm, 300)\<close> of its own, whose closure variable
  \<^verbatim>\<open>timeout\<close> is the field \<open>timeout\<close> of the input. \<open>debounced\<close> is the returned
  \<^verbatim>\<open>executedFunction\<close> and \<open>later\<close> the callback it schedules.
\<close>

definition debounced :: "nat \<Rightarrow> dom \<Rightarrow> dom" where
  "debounced i s =
     (let s1 = clearTimeout (timeout (formInputs s ! i)) s;
          t = next_timer s1;
          s2 = setTimeout (Later i) 300 s1
      in s2\<lparr>formInputs := (formInputs s2)[i := (formInputs s2 ! i)\<lparr>timeout := Some t\<rparr>]\<rparr>)"

definition later :: "nat \<Rightarrow> dom \<Rightarrow> dom" where
  "later i s = validateForm (clearTimeout (timeout (formInputs s ! i)) s)"

text \<open>The user changes the value of the \<open>i\<close>-th input to \<open>v\<close>; its input event fires.\<close>

definition input_event :: "nat \<Rightarrow> string \<Rightarrow> dom \<Rightarrow> dom" where
  "input_event i v s =
     (if i < length (formInputs s)
      then debounced i (s\<lparr>formInputs := (formInputs s)[i := (formInputs s ! i)\<lparr>input_value := v\<rparr>]\<rparr>)
      else s)"

definition sending_html :: string where
  \<open>sending_html = ''<i class="fas fa-spinner fa-spin"></i> Sending...''\<close>

definition sent_html :: string where
  \<open>sent_html = ''<i class="fas fa-check"></i> Sent!''\<close>

text \<open>
  The submit handler up to its \<^verbatim>\<open>await\<close>: the promise's timer is registered before
  the handler yields, and the rest of the handler runs when that timer fires. The promise
  never rejects, so the \<^verbatim>\<open>catch\<close> branch is not reached.
\<close>

definition submit :: "dom \<Rightarrow> dom" where
  "submit s =
     (if \<not> form s then s
      else if \<not> checkValidity s then s
      else (let s1 = set_disabled True s;
                originalText = map_option btn_innerHTML (formBtn s1);
                s2 = set_btn_innerHTML sending_html s1
            in setTimeout (SubmitSent originalText) 2000 s2))"

definition submit_sent :: "string option \<Rightarrow> dom \<Rightarrow> dom" where
  "submit_sent originalText s =
     setTimeout (SubmitReset originalText) 2000 (set_btn_innerHTML sent_html s)"

text \<open>\<^verbatim>\<open>form.reset()\<close> puts every control back to its default value.\<close>

definition form_reset :: "dom \<Rightarrow> dom" where
  "form_reset s =
     s\<lparr>formInputs := map (\<lambda>inp. inp\<lparr>input_value := defaultValue inp\<rparr>) (formInputs s)\<rparr>"

definition submit_reset :: "string option \<Rightarrow> dom \<Rightarrow> dom" where
  "submit_reset originalText s =
     (let s1 = form_reset s;
          s2 = set_btn_innerHTML (case originalText of None \<Rightarrow> ''undefined'' | Some h \<Rightarrow> h) s1
      in s2\<lparr>formInputs :=
              map (\<lambda>inp. inp\<lparr>input_classes := input_classes inp - {''has-value''}\<rparr>)
                (formInputs s2)\<rparr>)"

section \<open>The event loop\<close>

definition reveal :: "nat \<Rightarrow> dom \<Rightarrow> dom" where
  "reveal k s =
     s\<lparr>filterItems := (filterItems s)
         [k := (filterItems s ! k)\<lparr>item_classes := insert ''active'' (item_classes (filterItems s ! k))\<rparr>]\<rparr>"

definition fire :: "timer \<Rightarrow> dom \<Rightarrow> dom" where
  "fire tm s =
     (case callback tm of
        Reveal k \<Rightarrow> reveal k s
      | Later i \<Rightarrow> later i s
      | SubmitSent h \<Rightarrow> submit_sent h s
      | SubmitReset h \<Rightarrow> submit_reset h s)"

text \<open>
  The next timer to fire is the one with the least due time, the one registered first
  among equals; \<open>pick\<close> returns it with the timers that stay, in their order.
\<close>

fun pick :: "timer list \<Rightarrow> (timer \<times> timer list) option" where
  "pick [] = None"
| "pick (x # xs) =
     (case pick xs of
        None \<Rightarrow> Some (x, [])
      | Some (y, ys) \<Rightarrow> if due x \<le> due y then Some (x, xs) else Some (y, x # ys))"

fun weight :: "timer \<Rightarrow> nat" where
  "weight tm = (case callback tm of SubmitSent _ \<Rightarrow> 2 | _ \<Rightarrow> 1)"

lemma pick_None [simp]: "pick ts = None \<longleftrightarrow> ts = []"
  by (cases ts) (auto split: option.splits)

lemma pick_weight:
  "pick ts = Some (tm, rest) \<Longrightarrow>
   sum_list (map weight ts) = weight tm + sum_list (map weight rest)"
  by (induction ts arbitrary: tm rest) (auto split: option.splits if_splits)

lemma filter_weight_le:
  "sum_list (map weight (filter P ts)) \<le> sum_list (map weight ts)"
  by (induction ts) auto

lemma fire_weight:
  "sum_list (map weight (timers (fire tm (s\<lparr>timers := rest, now := t\<rparr>))))
     < weight tm + sum_list (map weight rest)"
proof (cases "callback tm")
  case (Reveal k)
  then show ?thesis by (simp add: fire_def reveal_def)
next
  case (Later i)
  have "sum_list (map weight (timers (clearTimeout c (s\<lparr>timers := rest, now := t\<rparr>))))
          \<le> sum_list (map weight rest)" for c
    by (cases c) (simp_all add: clearTimeout_def filter_weight_le)
  with Later show ?thesis
    by (simp add: fire_def later_def validateForm_def set_disabled_def less_Suc_eq_le)
next
  case (SubmitSent h)
  then show ?thesis
    by (simp add: fire_def submit_sent_def setTimeout_def set_btn_innerHTML_def)
next
  case (SubmitReset h)
  then show ?thesis
    by (simp add: fire_def submit_reset_def form_reset_def set_btn_innerHTML_def Let_def)
qed

text \<open>
  \<open>advance T\<close> lets the clock run to time \<open>T\<close> with no further event: the timers due
  by then fire one after the other, each at its due time.
\<close>

function advance :: "nat \<Rightarrow> dom \<Rightarrow> dom" where
  "advance T s =
     (case pick (timers s) of
        None \<Rightarrow> s\<lparr>now := max (now s) T\<rparr>
      | Some (tm, rest) \<Rightarrow>
          if due tm \<le> T
          then advance T (fire tm (s\<lparr>timers := rest, now := max (now s) (due tm)\<rparr>))
          else s\<lparr>now := max (now s) T\<rparr>)"
  by pat_completeness auto
termination
proof (relation "measure (\<lambda>(T, s). sum_list (map weight (timers s)))")
  show "wf (measure (\<lambda>(T, s). sum_list (map weight (timers s))))"
    by simp
next
  fix T :: nat and s :: dom and x2 tm rest
  assume "pick (timers s) = Some x2" and "(tm, rest) = x2" and "due tm \<le> T"
  then have "pick (timers s) = Some (tm, rest)"
    by simp
  from pick_weight [OF this]
    fire_weight [where tm = tm and s = s and rest = rest and t = "max (now s) (due tm)"]
  show "((T, fire tm (s\<lparr>timers := rest, now := max (now s) (due tm)\<rparr>)), (T, s))
          \<in> measure (\<lambda>(T, s). sum_list (map weight (timers s)))"
    by simp
qed

declare advance.simps [simp del]

section \<open>Page navigation\<close>

definition capitalize :: "string \<Rightarrow> string" where
  "capitalize pageName = toUpperCase (take 1 pageName) @ drop 1 pageName"

definition nav_page_step :: "string \<Rightarrow> nat \<Rightarrow> dom \<Rightarrow> dom" where
  "nav_page_step pageName k s =
     (let p = pages s ! k
      in if pageName = data_page p
         then s\<lparr>pages := (pages s)[k := p\<lparr>page_classes := insert ''active'' (page_classes p)\<rparr>],
                title := capitalize pageName @ '' - Portfolio''\<rparr>
         else s\<lparr>pages := (pages s)[k := p\<lparr>page_classes := page_classes p - {''active''}\<rparr>]\<rparr>)"

definition nav_link_update :: "string \<Rightarrow> nav_link \<Rightarrow> nav_link" where
  "nav_link_update pageName link =
     (let linkPage = toLowerCase (link_innerHTML link)
      in if linkPage = pageName
         then link\<lparr>link_classes := insert ''active'' (link_classes link)\<rparr>
         else link\<lparr>link_classes := link_classes link - {''active''}\<rparr>)"

text \<open>
  \<^verbatim>\<open>navigateToPage\<close>: the loop over the pages, which also writes the title, then the
  loop over the links, each of which touches its own link only. The smooth scroll to the
  top is left out.
\<close>

definition navigateToPage :: "string \<Rightarrow> dom \<Rightarrow> dom" where
  "navigateToPage pageName s =
     (let s1 = forEach (length (pages s)) (nav_page_step pageName) s
      in s1\<lparr>navigationLinks := map (nav_link_update pageName) (navigationLinks s1)\<rparr>)"

definition navLink_click :: "nat \<Rightarrow> dom \<Rightarrow> dom" where
  "navLink_click i s =
     (if i < length (navigationLinks s)
      then (let pageName = toLowerCase (link_innerHTML (navigationLinks s ! i));
                s1 = navigateToPage pageName s
            in s1\<lparr>location_hash := CHR ''#'' # pageName\<rparr>)
      else s)"

text \<open>
  The popstate handler; the browser has set \<^verbatim>\<open>window.location.hash\<close>, which is empty
  or starts with \<^verbatim>\<open>#\<close>, before it runs.
\<close>

definition popstate :: "dom \<Rightarrow> dom" where
  "popstate s =
     (let hash = drop 1 (location_hash s)
      in if hash \<noteq> [] then navigateToPage hash s else navigateToPage ''about'' s)"

text \<open>
  \<^verbatim>\<open>initializePage\<close>; the selector \<^verbatim>\<open>[data-page="hash"]\<close> finds a page whose
  \<^verbatim>\<open>data-page\<close> attribute is the fragment. That is what the selector does for a
  fragment without quote, backslash or control character; for any other fragment the
  selector the script builds can match differently or be refused, which is not modelled.
\<close>

definition initializePage :: "dom \<Rightarrow> dom" where
  "initializePage s =
     (let hash = drop 1 (location_hash s)
      in if hash \<noteq> [] \<and> hash \<in> set (map data_page (pages s))
         then navigateToPage hash s else navigateToPage ''about'' s)"

definition page_active :: "page \<Rightarrow> bool" where
  "page_active p = (''active'' \<in> page_classes p)"

definition link_active :: "nav_link \<Rightarrow> bool" where
  "link_active l = (''active'' \<in> link_classes l)"

section \<open>Notions the properties are stated with\<close>

text \<open>A portfolio item that is visible.\<close>

definition item_active :: "filter_item \<Rightarrow> bool" where
  "item_active item = (''active'' \<in> item_classes item)"

text \<open>
  The three flags of the modal: the container's and the overlay's \<^verbatim>\<open>active\<close> and the
  body's \<^verbatim>\<open>no-scroll\<close>. \<open>listens op s\<close> says that the listener of \<open>op\<close> is
  registered in \<open>s\<close> and gets as far as calling \<^verbatim>\<open>testimonialsModalFunc\<close>.
\<close>

definition modal_flags :: "dom \<Rightarrow> bool \<times> bool \<times> bool" where
  "modal_flags s =
     (is_active (modalContainer s), is_active (overlay s), ''no-scroll'' \<in> body_classes s)"

definition flip3 :: "bool \<times> bool \<times> bool \<Rightarrow> bool \<times> bool \<times> bool" where
  "flip3 f = (case f of (a, b, c) \<Rightarrow> (\<not> a, \<not> b, \<not> c))"

definition flags_equal :: "bool \<times> bool \<times> bool \<Rightarrow> bool" where
  "flags_equal f = (case f of (a, b, c) \<Rightarrow> a = b \<and> b = c)"

definition listens :: "modal_op \<Rightarrow> dom \<Rightarrow> bool" where
  "listens op s =
     (case op of
        ItemClick i \<Rightarrow> i < length (testimonialsItems s)
      | CloseBtnClick \<Rightarrow> modalCloseBtn s
      | OverlayClick \<Rightarrow> overlay s \<noteq> None
      | EscapeKey \<Rightarrow> is_active (modalContainer s))"

text \<open>
  A testimonial item that has its avatar, title and text elements, and a modal that has
  its three display elements.
\<close>

definition complete :: "testimonial \<Rightarrow> bool" where
  "complete item = (avatar item \<noteq> None \<and> item_title item \<noteq> None \<and> item_text item \<noteq> None)"

definition modal_fields_present :: "dom \<Rightarrow> bool" where
  "modal_fields_present s = (modalImg s \<noteq> None \<and> modalTitle s \<noteq> None \<and> modalText s \<noteq> None)"

text \<open>What the loop of \<^verbatim>\<open>navigateToPage\<close> does to one page element.\<close>

definition page_update :: "string \<Rightarrow> page \<Rightarrow> page" where
  "page_update pageName p =
     (if pageName = data_page p
      then p\<lparr>page_classes := insert ''active'' (page_classes p)\<rparr>
      else p\<lparr>page_classes := page_classes p - {''active''}\<rparr>)"

text \<open>
  Timer states the script can be in: an input's \<^verbatim>\<open>timeout\<close> variable holds an id
  that \<^verbatim>\<open>setTimeout\<close> has handed out, no pending timer is overdue, and a pending
  debounce callback belongs to an input of the form and is the one that input's
  \<^verbatim>\<open>timeout\<close> variable names.
\<close>

definition is_reveal :: "timer \<Rightarrow> bool" where
  "is_reveal tm = (case callback tm of Reveal _ \<Rightarrow> True | _ \<Rightarrow> False)"

definition slot_ok :: "dom \<Rightarrow> form_input \<Rightarrow> bool" where
  "slot_ok s inp = (case timeout inp of None \<Rightarrow> True | Some t \<Rightarrow> t < next_timer s)"

definition timer_ok :: "dom \<Rightarrow> timer \<Rightarrow> bool" where
  "timer_ok s tm =
     (now s \<le> due tm \<and>
      (case callback tm of
         Later i \<Rightarrow> i < length (formInputs s) \<and> timeout (formInputs s ! i) = Some (timer_id tm)
       | _ \<Rightarrow> True))"

definition timers_ok :: "dom \<Rightarrow> bool" where
  "timers_ok s = (list_all (slot_ok s) (formInputs s) \<and> list_all (timer_ok s) (timers s))"

definition no_reveal_pending :: "dom \<Rightarrow> bool" where
  "no_reveal_pending s = list_all (\<lambda>tm. \<not> is_reveal tm) (timers s)"

text \<open>The \<^verbatim>\<open>disabled\<close> attribute of the submit button, if there is a button.\<close>

definition btn_disabled :: "dom \<Rightarrow> bool option" where
  "btn_disabled s = map_option disabled (formBtn s)"

text \<open>
  The event loop on its way to time \<open>T\<close> with the debounce timer \<open>ours\<close> of input \<open>i\<close>
  due at \<open>T\<close>: the timers registered before it are \<open>pre\<close>, those after it \<open>post\<close>.
\<close>

definition debounce_pending ::
  "nat \<Rightarrow> nat \<Rightarrow> timer \<Rightarrow> timer list \<Rightarrow> timer list \<Rightarrow> dom \<Rightarrow> bool" where
  "debounce_pending T i ours pre post u \<longleftrightarrow>
     timers u = pre @ ours # post \<and> due ours = T \<and> callback ours = Later i \<and>
     (\<forall>x\<in>set post. T < due x) \<and> (\<forall>x\<in>set pre. T < due x + 2000) \<and>
     i < length (formInputs u) \<and> timeout (formInputs u ! i) = Some (timer_id ours) \<and>
     (\<forall>x\<in>set pre \<union> set post. \<forall>j. callback x = Later j \<longrightarrow>
        j < length (formInputs u) \<and> timeout (formInputs u ! j) \<noteq> Some (timer_id ours)) \<and>
     form u \<and> formBtn u \<noteq> None"

text \<open>The state a handler ends in, whether it returns or throws.\<close>

fun final_state :: "'a outcome \<Rightarrow> 'a" where
  "final_state (Completed s) = s"
| "final_state (Threw e s) = s"

definition btn_active :: "filter_btn \<Rightarrow> bool" where
  "btn_active b = (''active'' \<in> btn_classes b)"

text \<open>The state of \<^verbatim>\<open>filterFunc\<close>'s loop after the first \<open>m\<close> items, started in \<open>s\<close>.\<close>

definition filter_inv :: "string \<Rightarrow> dom \<Rightarrow> nat \<Rightarrow> dom \<Rightarrow> bool" where
  "filter_inv v s m u \<longleftrightarrow>
     formInputs u = formInputs s \<and> now u = now s \<and> next_timer s \<le> next_timer u \<and>
     length (filterItems u) = length (filterItems s) \<and>
     map category (filterItems u) = map category (filterItems s) \<and>
     (\<forall>j<length (filterItems s).
        item_active (filterItems u ! j) \<longleftrightarrow>
          item_active (filterItems s ! j) \<and> (m \<le> j \<or> filter_matches v (filterItems s ! j))) \<and>
     (\<forall>x\<in>set (timers u). x \<in> set (timers s) \<or>
        (\<exists>j<m. callback x = Reveal j \<and> filter_matches v (filterItems s ! j) \<and>
           due x = now s + 50)) \<and>
     (\<forall>j<m. filter_matches v (filterItems s ! j) \<longrightarrow>
        (\<exists>x\<in>set (timers u). callback x = Reveal j \<and> due x = now s + 50 \<and>
           next_timer s \<le> timer_id x)) \<and>
     set (timers s) \<subseteq> set (timers u)"

text \<open>
  Lower and upper case by the table of the 26 letters, and a name with its first letter
  in upper case.
\<close>

definition lower_letters :: string where
  "lower_letters = ''abcdefghijklmnopqrstuvwxyz''"

definition upper_letters :: string where
  "upper_letters = ''ABCDEFGHIJKLMNOPQRSTUVWXYZ''"

definition letter_upper :: "char \<Rightarrow> char" where
  "letter_upper c = (case map_of (zip lower_letters upper_letters) c of None \<Rightarrow> c | Some C \<Rightarrow> C)"

definition letter_lower :: "char \<Rightarrow> char" where
  "letter_lower c = (case map_of (zip upper_letters lower_letters) c of None \<Rightarrow> c | Some C \<Rightarrow> C)"

fun first_letter_upper :: "string \<Rightarrow> string" where
  "first_letter_upper [] = []"
| "first_letter_upper (c # cs) = letter_upper c # cs"

text \<open>
  The timers of a submission: the one that shows the sent state and the one that resets.
  \<open>cycle_timer u f d\<close> says that exactly one such timer is pending in \<open>u\<close>, with callback
  \<open>f\<close> and due at \<open>d\<close>, and that no input's \<^verbatim>\<open>timeout\<close> variable holds its id.
\<close>

definition is_cycle :: "timer \<Rightarrow> bool" where
  "is_cycle tm = (case callback tm of SubmitSent _ \<Rightarrow> True | SubmitReset _ \<Rightarrow> True | _ \<Rightarrow> False)"

definition is_later :: "timer \<Rightarrow> bool" where
  "is_later tm = (case callback tm of Later _ \<Rightarrow> True | _ \<Rightarrow> False)"

definition btn_html :: "dom \<Rightarrow> string option" where
  "btn_html s = map_option btn_innerHTML (formBtn s)"

definition cycle_timer :: "dom \<Rightarrow> action \<Rightarrow> nat \<Rightarrow> bool" where
  "cycle_timer u f d \<longleftrightarrow>
     (\<exists>c. filter is_cycle (timers u) = [c] \<and> callback c = f \<and> due c = d \<and>
        Some (timer_id c) \<notin> set (map timeout (formInputs u)))"

text \<open>
  A submission made at time \<open>t\<close> on its way: the button's markup was \<open>orig\<close>, the inputs
  held \<open>vals\<close> and have the defaults \<open>defs\<close>; \<open>quiet\<close> says that no debounced validation
  was pending when the form was submitted. The three alternatives are the sending, the
  sent and the restored state.
\<close>

definition cycle_inv :: "nat \<Rightarrow> string \<Rightarrow> string list \<Rightarrow> string list \<Rightarrow> bool \<Rightarrow> dom \<Rightarrow> bool" where
  "cycle_inv t orig vals defs quiet u \<longleftrightarrow>
     timers_ok u \<and> formBtn u \<noteq> None \<and> map defaultValue (formInputs u) = defs \<and>
     (quiet \<longrightarrow> btn_disabled u = Some True \<and> list_all (\<lambda>x. \<not> is_later x) (timers u)) \<and>
     (cycle_timer u (SubmitSent (Some orig)) (t + 2000) \<and> btn_html u = Some sending_html \<and>
        map input_value (formInputs u) = vals
      \<or> cycle_timer u (SubmitReset (Some orig)) (t + 4000) \<and> btn_html u = Some sent_html \<and>
        map input_value (formInputs u) = vals \<and> t + 2000 \<le> now u
      \<or> filter is_cycle (timers u) = [] \<and> btn_html u = Some orig \<and>
        map input_value (formInputs u) = defs \<and>
        list_all (\<lambda>inp. ''has-value'' \<notin> input_classes inp) (formInputs u) \<and>
        t + 4000 \<le> now u)"

section \<open>Example documents\<close>

text \<open>
  A document with every element the script looks for: four pages and their links, three
  filter buttons, select items and portfolio items, two testimonials, a form with a
  required name and a required e-mail field, and nothing stored yet.
\<close>

definition example_dom :: dom where
  "example_dom =
     \<lparr>now = 0, next_timer = 0, timers = [],
      themeToggle = Some \<lparr>icon = Some {''fas'', ''fa-moon''}\<rparr>,
      data_theme = None, localStorage = Map.empty,
      body_transition = None, body_classes = {},
      testimonialsItems =
        [\<lparr>avatar = Some \<lparr>src = ''avatar-1.png'', alt = ''Daniel''\<rparr>,
          item_title = Some ''Daniel'', item_text = Some ''Great work.''\<rparr>,
         \<lparr>avatar = Some \<lparr>src = ''avatar-2.png'', alt = ''Jessica''\<rparr>,
          item_title = Some ''Jessica'', item_text = Some ''Very reliable.''\<rparr>],
      modalContainer = Some {''modal-container''}, modalCloseBtn = True,
      closeBtn_focused = False, overlay = Some {''overlay''},
      modalImg = Some \<lparr>src = [], alt = []\<rparr>, modalTitle = Some [], modalText = Some [],
      select = Some {''filter-select''},
      selectItems = [''All'', ''Web design'', ''Applications''],
      selectValue = Some ''Select category'',
      filterBtns =
        [\<lparr>btn_innerText = ''All'', btn_classes = {''active''}\<rparr>,
         \<lparr>btn_innerText = ''Web design'', btn_classes = {}\<rparr>,
         \<lparr>btn_innerText = ''Applications'', btn_classes = {}\<rparr>],
      lastClickedBtn = Some 0,
      filterItems =
        [\<lparr>category = Some ''web design'', item_classes = {''active''}\<rparr>,
         \<lparr>category = Some ''applications'', item_classes = {''active''}\<rparr>,
         \<lparr>category = Some ''web design'', item_classes = {''active''}\<rparr>],
      form = True,
      formInputs =
        [\<lparr>input_value = [], defaultValue = [], required = True, format_ok = (\<lambda>v. True),
          input_classes = {}, timeout = None\<rparr>,
         \<lparr>input_value = [], defaultValue = [], required = True,
          format_ok = (\<lambda>v. CHR ''@'' \<in> set v), input_classes = {}, timeout = None\<rparr>],
      formBtn = Some \<lparr>disabled = True, btn_innerHTML = ''Send Message''\<rparr>,
      navigationLinks =
        [\<lparr>link_innerHTML = ''About'', link_classes = {''active''}\<rparr>,
         \<lparr>link_innerHTML = ''Resume'', link_classes = {}\<rparr>,
         \<lparr>link_innerHTML = ''Portfolio'', link_classes = {}\<rparr>,
         \<lparr>link_innerHTML = ''Contact'', link_classes = {}\<rparr>],
      pages =
        [\<lparr>data_page = ''about'', page_classes = {''active''}\<rparr>,
         \<lparr>data_page = ''resume'', page_classes = {}\<rparr>,
         \<lparr>data_page = ''portfolio'', page_classes = {}\<rparr>,
         \<lparr>data_page = ''contact'', page_classes = {}\<rparr>],
      title = ''Portfolio'', location_hash = []\<rparr>"

text \<open>The first visit: the script has run its theme set-up on the example document.\<close>

definition first_visit :: dom where
  "first_visit = load_theme example_dom"

text \<open>The example document with a second testimonial that has no title element.\<close>

definition untitled_dom :: dom where
  "untitled_dom =
     example_dom\<lparr>testimonialsItems :=
       [\<lparr>avatar = Some \<lparr>src = ''avatar-1.png'', alt = ''Daniel''\<rparr>,
         item_title = Some ''Daniel'', item_text = Some ''Great work.''\<rparr>,
        \<lparr>avatar = Some \<lparr>src = ''avatar-2.png'', alt = ''Jessica''\<rparr>,
         item_title = None, item_text = Some ''Very reliable.''\<rparr>]\<rparr>"

text \<open>
  The example document after the visitor has filled in the form and the validation has
  enabled the button.
\<close>

definition filled_dom :: dom where
  "filled_dom =
     example_dom\<lparr>formInputs :=
        [\<lparr>input_value = ''Ann'', defaultValue = [], required = True, format_ok = (\<lambda>v. True),
          input_classes = {''has-value''}, timeout = None\<rparr>,
         \<lparr>input_value = ''a@b'', defaultValue = [], required = True,
          format_ok = (\<lambda>v. CHR ''@'' \<in> set v), input_classes = {''has-value''}, timeout = None\<rparr>],
       formBtn := Some \<lparr>disabled = False, btn_innerHTML = ''Send Message''\<rparr>\<rparr>"

section \<open>Loops and timers\<close>

lemma forEach_0 [simp]: "forEach 0 f s = s"
  by (simp add: forEach_def)

lemma forEach_Suc [simp]: "forEach (Suc n) f s = f n (forEach n f s)"
  by (simp add: forEach_def)

lemma lower_examples [simp]:
  "toLowerCase ''About'' = ''about''"
  "toLowerCase ''Resume'' = ''resume''"
  "toLowerCase ''Portfolio'' = ''portfolio''"
  "toLowerCase ''Contact'' = ''contact''"
  "toLowerCase ''All'' = ''all''"
  "toLowerCase ''all'' = ''all''"
  "toLowerCase ''Web design'' = ''web design''"
  "toLowerCase ''Applications'' = ''applications''"
  by code_simp+

lemma capitalize_portfolio [simp]: "capitalize ''portfolio'' = ''Portfolio''"
  by code_simp

lemma pick_set: "pick ts = Some (tm, rest) \<Longrightarrow> set ts = insert tm (set rest)"
  by (induction ts arbitrary: tm rest) (auto split: option.splits if_splits)

lemma pick_min: "pick ts = Some (tm, rest) \<Longrightarrow> x \<in> set ts \<Longrightarrow> due tm \<le> due x"
  by (induction ts arbitrary: tm rest) (fastforce split: option.splits if_splits dest: pick_set)+

lemma advance_stop:
  assumes "\<forall>x\<in>set (timers s). T < due x"
  shows "advance T s = s\<lparr>now := max (now s) T\<rparr>"
proof (cases "pick (timers s)")
  case None
  then show ?thesis by (subst advance.simps) simp
next
  case (Some p)
  obtain tm rest where p: "p = (tm, rest)" by (cases p)
  with Some have "tm \<in> set (timers s)" by (auto dest: pick_set)
  with assms have "\<not> due tm \<le> T" by auto
  with Some p show ?thesis by (subst advance.simps) simp
qed

lemma advance_step:
  "pick (timers s) = Some (tm, rest) \<Longrightarrow> due tm \<le> T \<Longrightarrow>
   advance T s = advance T (fire tm (s\<lparr>timers := rest, now := max (now s) (due tm)\<rparr>))"
  by (subst advance.simps) simp

text \<open>What clearing and firing a timer change.\<close>

lemma clearTimeout_frame [simp]:
  "filterItems (clearTimeout c s) = filterItems s"
  "formInputs (clearTimeout c s) = formInputs s"
  "formBtn (clearTimeout c s) = formBtn s"
  "form (clearTimeout c s) = form s"
  "now (clearTimeout c s) = now s"
  "next_timer (clearTimeout c s) = next_timer s"
  "set (timers (clearTimeout c s)) \<subseteq> set (timers s)"
  by (auto simp: clearTimeout_def split: option.splits)

lemma clearTimeout_sub:
  "x \<in> set (timers (clearTimeout c s)) \<Longrightarrow> x \<in> set (timers s)"
  by (auto simp: clearTimeout_def split: option.splits)

lemma clearTimeout_keeps:
  "tm \<in> set (timers s) \<Longrightarrow> c \<noteq> Some (timer_id tm) \<Longrightarrow> tm \<in> set (timers (clearTimeout c s))"
  by (auto simp: clearTimeout_def split: option.splits)

lemma validateForm_frame [simp]:
  "filterItems (validateForm s) = filterItems s"
  "formInputs (validateForm s) = formInputs s"
  "form (validateForm s) = form s"
  "now (validateForm s) = now s"
  "next_timer (validateForm s) = next_timer s"
  "timers (validateForm s) = timers s"
  by (simp_all add: validateForm_def set_disabled_def)

lemma fire_filterItems:
  "filterItems (fire tm s) =
     (case callback tm of Reveal k \<Rightarrow> filterItems (reveal k s) | _ \<Rightarrow> filterItems s)"
  by (simp add: fire_def later_def submit_sent_def submit_reset_def form_reset_def
      set_btn_innerHTML_def setTimeout_def Let_def split: action.splits)

lemma reveal_length [simp]: "length (filterItems (reveal k s)) = length (filterItems s)"
  by (simp add: reveal_def)

lemma reveal_category [simp]:
  "map category (filterItems (reveal k s)) = map category (filterItems s)"
proof (rule nth_equalityI)
  fix j assume "j < length (map category (filterItems (reveal k s)))"
  then show "map category (filterItems (reveal k s)) ! j = map category (filterItems s) ! j"
    by (cases "j = k") (simp_all add: reveal_def)
qed simp

lemma reveal_active:
  "j < length (filterItems s) \<Longrightarrow>
     item_active (filterItems (reveal k s) ! j) \<longleftrightarrow> j = k \<or> item_active (filterItems s ! j)"
  by (cases "j = k") (simp_all add: reveal_def item_active_def)

lemma fire_items:
  "length (filterItems (fire tm s)) = length (filterItems s)"
  "map category (filterItems (fire tm s)) = map category (filterItems s)"
  "j < length (filterItems s) \<Longrightarrow>
     item_active (filterItems (fire tm s) ! j) \<longleftrightarrow>
       callback tm = Reveal j \<or> item_active (filterItems s ! j)"
  by (auto simp: fire_filterItems reveal_active split: action.splits)

lemma fire_inputs:
  "length (formInputs (fire tm s)) = length (formInputs s)"
  "map timeout (formInputs (fire tm s)) = map timeout (formInputs s)"
  by (simp_all add: fire_def later_def submit_sent_def submit_reset_def form_reset_def reveal_def
      set_btn_innerHTML_def setTimeout_def Let_def comp_def split: action.splits)

lemma fire_timers_sub:
  "x \<in> set (timers (fire tm s)) \<Longrightarrow>
   x \<in> set (timers s) \<or> (\<exists>h. callback tm = SubmitSent h \<and> callback x = SubmitReset h \<and>
      due x = now s + 2000 \<and> timer_id x = next_timer s)"
  by (auto dest: clearTimeout_sub simp: fire_def later_def submit_sent_def submit_reset_def form_reset_def reveal_def
      set_btn_innerHTML_def setTimeout_def Let_def split: action.splits)

lemma fire_keeps:
  assumes "tm \<in> set (timers s)"
    and "\<And>i. callback tm' = Later i \<Longrightarrow> timeout (formInputs s ! i) \<noteq> Some (timer_id tm)"
  shows "tm \<in> set (timers (fire tm' s))"
  using assms
  by (cases "callback tm'")
     (simp_all add: fire_def later_def submit_sent_def submit_reset_def form_reset_def reveal_def
        set_btn_innerHTML_def setTimeout_def Let_def clearTimeout_keeps)

lemma advance_items:
  "length (filterItems (advance T s)) = length (filterItems s) \<and>
   map category (filterItems (advance T s)) = map category (filterItems s) \<and>
   (\<forall>j<length (filterItems s).
      item_active (filterItems (advance T s) ! j) \<longrightarrow>
        item_active (filterItems s ! j) \<or>
        (\<exists>tm\<in>set (timers s). callback tm = Reveal j \<and> due tm \<le> T)) \<and>
   (\<forall>j<length (filterItems s).
      item_active (filterItems s ! j) \<longrightarrow> item_active (filterItems (advance T s) ! j))"
proof (induction T s rule: advance.induct)
  case (1 T s)
  show ?case
  proof (cases "pick (timers s)")
    case None
    then show ?thesis by (subst (1 2 3 4) advance.simps) simp
  next
    case (Some p)
    obtain tm rest where p: "p = (tm, rest)" by (cases p)
    show ?thesis
    proof (cases "due tm \<le> T")
      case False
      with Some p show ?thesis by (subst (1 2 3 4) advance.simps) simp
    next
      case True
      define s1 where "s1 = s\<lparr>timers := rest, now := max (now s) (due tm)\<rparr>"
      define s2 where "s2 = fire tm s1"
      have adv: "advance T s = advance T s2"
        using Some p True by (simp add: advance_step s1_def s2_def)
      have IH: "length (filterItems (advance T s2)) = length (filterItems s2)"
        "map category (filterItems (advance T s2)) = map category (filterItems s2)"
        "\<And>j. j < length (filterItems s2) \<Longrightarrow> item_active (filterItems (advance T s2) ! j) \<Longrightarrow>
           item_active (filterItems s2 ! j) \<or>
           (\<exists>x\<in>set (timers s2). callback x = Reveal j \<and> due x \<le> T)"
        "\<And>j. j < length (filterItems s2) \<Longrightarrow> item_active (filterItems s2 ! j) \<Longrightarrow>
           item_active (filterItems (advance T s2) ! j)"
        using "1.IH" [OF Some p [symmetric] True] by (simp_all add: s1_def s2_def)
      have items1: "filterItems s1 = filterItems s" by (simp add: s1_def)
      have len2: "length (filterItems s2) = length (filterItems s)"
        and cat2: "map category (filterItems s2) = map category (filterItems s)"
        and act2: "\<And>j. j < length (filterItems s) \<Longrightarrow>
          item_active (filterItems s2 ! j) \<longleftrightarrow> callback tm = Reveal j \<or> item_active (filterItems s ! j)"
        using fire_items [where tm = tm and s = s1] by (simp_all add: s2_def items1)
      have tm_in: "tm \<in> set (timers s)" and rest: "set rest \<subseteq> set (timers s)"
        using pick_set [where ts = "timers s" and tm = tm and rest = rest] Some p by auto
      have tim2: "callback x = Reveal j \<Longrightarrow> x \<in> set (timers s)" if "x \<in> set (timers s2)" for x j
        using fire_timers_sub [where x = x and tm = tm and s = s1] that rest by (auto simp: s2_def s1_def)
      show ?thesis
        unfolding adv
      proof (intro conjI allI impI)
        show "length (filterItems (advance T s2)) = length (filterItems s)"
          using IH(1) len2 by simp
        show "map category (filterItems (advance T s2)) = map category (filterItems s)"
          using IH(2) cat2 by simp
      next
        fix j assume j: "j < length (filterItems s)" and a: "item_active (filterItems (advance T s2) ! j)"
        from IH(3) [of j] j a len2
        consider "item_active (filterItems s2 ! j)"
          | x where "x \<in> set (timers s2)" "callback x = Reveal j" "due x \<le> T"
          by auto
        then show "item_active (filterItems s ! j) \<or>
            (\<exists>tm\<in>set (timers s). callback tm = Reveal j \<and> due tm \<le> T)"
        proof cases
          case 1
          with act2 [OF j] tm_in True show ?thesis by auto
        next
          case 2
          with tim2 show ?thesis by blast
        qed
      next
        fix j assume j: "j < length (filterItems s)" and a: "item_active (filterItems s ! j)"
        then show "item_active (filterItems (advance T s2) ! j)"
          using IH(4) [of j] act2 [OF j] len2 by simp
      qed
    qed
  qed
qed

lemma advance_reveals:
  assumes "tm \<in> set (timers s)" and "callback tm = Reveal k" and "due tm \<le> T"
    and "k < length (filterItems s)"
    and "Some (timer_id tm) \<notin> set (map timeout (formInputs s))"
    and "\<forall>x\<in>set (timers s). \<forall>i. callback x = Later i \<longrightarrow> i < length (formInputs s)"
  shows "item_active (filterItems (advance T s) ! k)"
  using assms
proof (induction T s rule: advance.induct)
  case (1 T s)
  from "1.prems"(1) obtain p where Some: "pick (timers s) = Some p"
    by (cases "pick (timers s)") auto
  obtain tm' rest where p: "p = (tm', rest)" by (cases p)
  have tm'_in: "tm' \<in> set (timers s)" and rest: "set (timers s) = insert tm' (set rest)"
    using pick_set [where ts = "timers s" and tm = tm' and rest = rest] Some p by auto
  have le: "due tm' \<le> T"
    using pick_min [where ts = "timers s" and tm = tm' and rest = rest and x = tm] Some p "1.prems"(1,3) by simp
  define s1 where "s1 = s\<lparr>timers := rest, now := max (now s) (due tm')\<rparr>"
  define s2 where "s2 = fire tm' s1"
  have adv: "advance T s = advance T s2"
    using Some p le by (simp add: advance_step s1_def s2_def)
  have len2: "length (filterItems s2) = length (filterItems s)"
    using fire_items(1) [where tm = tm' and s = s1] by (simp add: s2_def s1_def)
  show ?case
  proof (cases "tm' = tm")
    case True
    have "item_active (filterItems s2 ! k)"
      using fire_items(3) [where j = k and s = s1 and tm = tm'] True "1.prems"(2,4) by (simp add: s2_def s1_def)
    then show ?thesis
      using advance_items [where T = T and s = s2] len2 "1.prems"(4) adv by simp
  next
    case False
    with rest "1.prems"(1) have in1: "tm \<in> set (timers s1)"
      by (auto simp: s1_def)
    have slot: "timeout (formInputs s1 ! i) \<noteq> Some (timer_id tm)" if "callback tm' = Later i" for i
    proof -
      from that tm'_in "1.prems"(6) have "i < length (formInputs s)" by blast
      then have "timeout (formInputs s ! i) \<in> set (map timeout (formInputs s))" by simp
      with "1.prems"(5) show ?thesis by (auto simp: s1_def)
    qed
    have in2: "tm \<in> set (timers s2)"
      unfolding s2_def using in1 slot by (rule fire_keeps)
    have slots2: "Some (timer_id tm) \<notin> set (map timeout (formInputs s2))"
      using fire_inputs(2) [where tm = tm' and s = s1] "1.prems"(5) by (simp add: s2_def s1_def)
    have valid2: "\<forall>x\<in>set (timers s2). \<forall>i. callback x = Later i \<longrightarrow> i < length (formInputs s2)"
    proof (intro ballI allI impI)
      fix x i assume x: "x \<in> set (timers s2)" and c: "callback x = Later i"
      from fire_timers_sub [where x = x and tm = tm' and s = s1] x c have "x \<in> set (timers s1)"
        by (auto simp: s2_def)
      then have "x \<in> set (timers s)" using rest by (auto simp: s1_def)
      with c "1.prems"(6) have "i < length (formInputs s)" by blast
      then show "i < length (formInputs s2)"
        using fire_inputs(1) [where tm = tm' and s = s1] by (simp add: s2_def s1_def)
    qed
    have "item_active (filterItems (advance T s2) ! k)"
      using "1.IH" [OF Some p [symmetric] le] in2 "1.prems"(2,3,4) len2 slots2 valid2
      by (simp add: s1_def s2_def)
    then show ?thesis by (simp add: adv)
  qed
qed

lemma pick_append:
  "pick (xs @ ys) =
     (case pick xs of
        None \<Rightarrow> pick ys
      | Some (x, xs') \<Rightarrow>
          (case pick ys of
             None \<Rightarrow> Some (x, xs' @ ys)
           | Some (y, ys') \<Rightarrow>
               if due x \<le> due y then Some (x, xs' @ ys) else Some (y, xs @ ys')))"
proof (induction xs)
  case Nil
  then show ?case by (simp split: option.splits)
next
  case (Cons a xs)
  show ?case
  proof (cases "pick xs")
    case None
    then show ?thesis by (simp split: option.splits)
  next
    case (Some p)
    obtain x xs' where p: "p = (x, xs')" by (cases p)
    show ?thesis
    proof (cases "pick ys")
      case None
      with Some p Cons show ?thesis by simp
    next
      case Some2: (Some q)
      obtain y ys' where q: "q = (y, ys')" by (cases q)
      from Some p Some2 q Cons show ?thesis by auto
    qed
  qed
qed

lemma pick_first:
  assumes "\<forall>x\<in>set post. due tm < due x"
  shows "pick (tm # post) = Some (tm, post)"
proof (cases "pick post")
  case None
  then show ?thesis by simp
next
  case (Some q)
  obtain y ys where q: "q = (y, ys)" by (cases q)
  with Some have "y \<in> set post" by (auto dest: pick_set)
  with assms have "due tm \<le> due y" by auto
  with Some q show ?thesis by simp
qed

lemma pick_pending:
  assumes "\<forall>x\<in>set post. due tm < due x"
  shows "pick (pre @ tm # post) =
     (case pick pre of
        None \<Rightarrow> Some (tm, post)
      | Some (y, ys) \<Rightarrow> if due y \<le> due tm then Some (y, ys @ tm # post)
                        else Some (tm, pre @ post))"
proof -
  have first: "pick (tm # post) = Some (tm, post)"
    using assms by (rule pick_first)
  show ?thesis
    by (simp only: pick_append first) (simp split: option.splits)
qed

section \<open>Theme\<close>

text \<open>
  C8, as amended. Two clicks on the theme toggle bring the \<^verbatim>\<open>data-theme\<close> attribute
  back to what it was, when that was \<^verbatim>\<open>dark\<close> or \<^verbatim>\<open>light\<close>; where the toggle
  exists they leave that same value stored under \<^verbatim>\<open>theme\<close>; and the storage as a whole
  is what it was before when it already held the attribute's value.
\<close>

theorem themeToggle_click_twice:
  "data_theme s = Some ''dark'' \<or> data_theme s = Some ''light'' \<Longrightarrow>
   data_theme (themeToggle_click (themeToggle_click s)) = data_theme s \<and>
   (themeToggle s \<noteq> None \<longrightarrow>
      localStorage (themeToggle_click (themeToggle_click s)) ''theme'' = data_theme s) \<and>
   (localStorage s ''theme'' = data_theme s \<longrightarrow>
      localStorage (themeToggle_click (themeToggle_click s)) = localStorage s)"
  by (auto simp: themeToggle_click_def updateThemeIcon_def Let_def fun_eq_iff split: option.splits)

text \<open>The amended C8 on the first visit: dark before and after, and \<^verbatim>\<open>dark\<close> stored.\<close>

theorem themeToggle_click_twice_witness:
  "(data_theme first_visit = Some ''dark'' \<or> data_theme first_visit = Some ''light'') \<and>
   data_theme (themeToggle_click (themeToggle_click first_visit)) = data_theme first_visit \<and>
   localStorage (themeToggle_click (themeToggle_click first_visit)) ''theme'' = Some ''dark''"
  using themeToggle_click_twice [of first_visit]
  by (simp add: first_visit_def example_dom_def load_theme_def stored_theme_def updateThemeIcon_def)

text \<open>
  C8 as stated fails on the first visit: nothing is stored before the two clicks, and
  \<^verbatim>\<open>dark\<close> is stored after them.
\<close>

theorem themeToggle_click_twice_first_visit:
  "data_theme first_visit = Some ''dark'' \<and> localStorage first_visit ''theme'' = None \<and>
   localStorage (themeToggle_click (themeToggle_click first_visit)) ''theme'' = Some ''dark''"
  by (simp add: first_visit_def example_dom_def load_theme_def stored_theme_def
      themeToggle_click_def updateThemeIcon_def Let_def)

section \<open>Modal\<close>

lemma toggle_mem [simp]: "c \<in> classList_toggle c cl \<longleftrightarrow> c \<notin> cl"
  by (simp add: classList_toggle_def)

lemma copy_frame [simp]:
  "modalContainer (copy_testimonial item s) = modalContainer s"
  "overlay (copy_testimonial item s) = overlay s"
  "body_classes (copy_testimonial item s) = body_classes s"
  "modalCloseBtn (copy_testimonial item s) = modalCloseBtn s"
  "testimonialsItems (copy_testimonial item s) = testimonialsItems s"
  by (simp_all add: copy_testimonial_def Let_def split: option.splits)

lemma modalFunc_flags:
  "modalContainer s \<noteq> None \<Longrightarrow> overlay s \<noteq> None \<Longrightarrow>
   modal_flags (testimonialsModalFunc s) = flip3 (modal_flags s)"
  by (auto simp: testimonialsModalFunc_def modal_flags_def flip3_def is_active_def Let_def)

lemma modalFunc_present [simp]:
  "modalContainer (testimonialsModalFunc s) = None \<longleftrightarrow> modalContainer s = None"
  "overlay (testimonialsModalFunc s) = None \<longleftrightarrow> overlay s = None"
  by (simp_all add: testimonialsModalFunc_def Let_def)

lemma modal_step_present [simp]:
  "modalContainer (modal_step op s) = None \<longleftrightarrow> modalContainer s = None"
  "overlay (modal_step op s) = None \<longleftrightarrow> overlay s = None"
  by (cases op; simp add: testimonialsItem_click_def modalCloseBtn_click_def overlay_click_def keydown_def)+

lemma modal_flags_copy [simp]: "modal_flags (copy_testimonial item s) = modal_flags s"
  by (simp add: modal_flags_def)

lemma modal_step_flags:
  assumes "modalContainer s \<noteq> None" "overlay s \<noteq> None"
  shows "modal_flags (modal_step op s) = (if listens op s then flip3 (modal_flags s) else modal_flags s)"
  using assms
  by (cases op) (auto simp: listens_def testimonialsItem_click_def modalCloseBtn_click_def
      overlay_click_def keydown_def modalFunc_flags)

lemma flags_equal_flip3 [simp]: "flags_equal (flip3 f) = flags_equal f"
  by (cases f) (auto simp: flags_equal_def flip3_def)

lemma fold_flags_equal:
  "modalContainer s \<noteq> None \<Longrightarrow> overlay s \<noteq> None \<Longrightarrow> flags_equal (modal_flags s) \<Longrightarrow>
   flags_equal (modal_flags (fold modal_step ops s))"
proof (induction ops arbitrary: s)
  case Nil
  then show ?case by simp
next
  case (Cons op ops)
  have "flags_equal (modal_flags (modal_step op s))"
    using Cons.prems by (simp add: modal_step_flags)
  moreover have "modalContainer (modal_step op s) \<noteq> None" "overlay (modal_step op s) \<noteq> None"
    using Cons.prems by simp_all
  ultimately show ?case
    using Cons.IH [of "modal_step op s"] by simp
qed

text \<open>
  C10. With the modal container and the overlay in the document, a modal operation whose
  listener runs flips the container's \<^verbatim>\<open>active\<close>, the overlay's \<^verbatim>\<open>active\<close> and
  the body's \<^verbatim>\<open>no-scroll\<close> all three, and any other leaves all three alone; so three
  flags that are equal stay equal through any sequence of modal operations.
\<close>

theorem modal_flags_together:
  assumes "modalContainer s \<noteq> None" and "overlay s \<noteq> None"
  shows "modal_flags (modal_step op s) =
           (if listens op s then flip3 (modal_flags s) else modal_flags s) \<and>
         (flags_equal (modal_flags s) \<longrightarrow> flags_equal (modal_flags (fold modal_step ops s)))"
  using assms by (simp add: modal_step_flags fold_flags_equal)

text \<open>C10 on the example document: open, Escape, open the other item, click the overlay.\<close>

theorem modal_flags_together_witness:
  "modalContainer example_dom \<noteq> None \<and> overlay example_dom \<noteq> None \<and>
   listens (ItemClick 0) example_dom \<and>
   modal_flags (modal_step (ItemClick 0) example_dom) = (True, True, True) \<and>
   flags_equal (modal_flags example_dom) \<and>
   flags_equal (modal_flags
     (fold modal_step [ItemClick 0, EscapeKey, ItemClick 1, OverlayClick] example_dom))"
  using modal_flags_together [of example_dom "ItemClick 0"
      "[ItemClick 0, EscapeKey, ItemClick 1, OverlayClick]"]
  by (simp add: example_dom_def listens_def modal_flags_def flip3_def flags_equal_def is_active_def)

lemma modalFunc_content [simp]:
  "modal_content (testimonialsModalFunc s) = modal_content s"
  "testimonialsItems (testimonialsModalFunc s) = testimonialsItems s"
  by (simp_all add: testimonialsModalFunc_def modal_content_def Let_def)

lemma copy_content:
  "modal_fields_present s \<Longrightarrow> complete item \<Longrightarrow>
   modal_content (copy_testimonial item s) = testimonial_content item"
  by (auto simp: modal_fields_present_def complete_def copy_testimonial_def modal_content_def
      testimonial_content_def Let_def)

lemma copy_present [simp]:
  "modal_fields_present (copy_testimonial item s) = modal_fields_present s"
  by (auto simp: modal_fields_present_def copy_testimonial_def Let_def split: option.splits)

lemma modalFunc_fields [simp]:
  "modal_fields_present (testimonialsModalFunc s) = modal_fields_present s"
  by (simp add: modal_fields_present_def testimonialsModalFunc_def Let_def)

lemma modal_step_fields [simp]:
  "modal_fields_present (modal_step op s) = modal_fields_present s"
  "testimonialsItems (modal_step op s) = testimonialsItems s"
  by (cases op; simp add: testimonialsItem_click_def modalCloseBtn_click_def overlay_click_def keydown_def)+

lemma fold_modal_fields [simp]:
  "modal_fields_present (fold modal_step ops s) = modal_fields_present s"
  "testimonialsItems (fold modal_step ops s) = testimonialsItems s"
  by (induction ops arbitrary: s) simp_all

lemma modalTitle_modalFunc [simp]: "modalTitle (testimonialsModalFunc s) = modalTitle s"
  by (simp add: testimonialsModalFunc_def Let_def)

lemma modalTitle_copy:
  "modalTitle (copy_testimonial item s) =
     (case item_title item of
        None \<Rightarrow> modalTitle s
      | Some t \<Rightarrow> (case modalTitle s of None \<Rightarrow> None | Some _ \<Rightarrow> Some t))"
  by (simp add: copy_testimonial_def Let_def split: option.splits)

lemma modalTitle_click:
  "i < length (testimonialsItems s) \<Longrightarrow>
   modalTitle (testimonialsItem_click i s) =
     (case item_title (testimonialsItems s ! i) of
        None \<Rightarrow> modalTitle s
      | Some t \<Rightarrow> (case modalTitle s of None \<Rightarrow> None | Some _ \<Rightarrow> Some t))"
  by (simp add: testimonialsItem_click_def modalTitle_copy)

lemma modalTitle_close [simp]: "modalTitle (modalCloseBtn_click s) = modalTitle s"
  by (simp add: modalCloseBtn_click_def)

lemma copy_skips:
  "avatar item = None \<Longrightarrow> modalImg (copy_testimonial item s) = modalImg s"
  "item_title item = None \<Longrightarrow> modalTitle (copy_testimonial item s) = modalTitle s"
  "item_text item = None \<Longrightarrow> modalText (copy_testimonial item s) = modalText s"
  by (simp_all add: copy_testimonial_def Let_def split: option.splits)

lemma modalFunc_keeps_fields [simp]:
  "modalImg (testimonialsModalFunc s) = modalImg s"
  "modalText (testimonialsModalFunc s) = modalText s"
  by (simp_all add: testimonialsModalFunc_def Let_def)

lemma modalFunc_opens:
  "modalContainer s \<noteq> None \<Longrightarrow>
   is_active (modalContainer (testimonialsModalFunc s)) \<longleftrightarrow> \<not> is_active (modalContainer s)"
  by (auto simp: testimonialsModalFunc_def is_active_def Let_def)

lemma fold_modal_present:
  "modalContainer (fold modal_step ops s) = None \<longleftrightarrow> modalContainer s = None"
  by (induction ops arbitrary: s) simp_all

text \<open>
  C4, as amended. Let the document have the modal container and the modal's image, title
  and text elements, and let item \<open>b\<close> have its avatar, title and text elements. Let item
  \<open>a\<close> be clicked, then any modal operations follow that leave the modal closed, then
  item \<open>b\<close> be clicked. The handler first writes all three fields, so that the modal,
  still closed, holds the content of item \<open>b\<close>, and only then calls
  \<^verbatim>\<open>testimonialsModalFunc\<close>; after the click the modal is open and its image, title and
  text are those of item \<open>b\<close>. And on any document a click on an item that lacks its
  avatar, its title or its text element leaves the modal's image, title or text as it was.
\<close>

theorem modal_shows_last_clicked:
  assumes "modal_fields_present s" and "modalContainer s \<noteq> None"
    and "b < length (testimonialsItems s)"
    and "complete (testimonialsItems s ! b)"
    and "\<not> is_active (modalContainer (fold modal_step ops (testimonialsItem_click a s)))"
  shows "modal_content (copy_testimonial (testimonialsItems s ! b)
             (fold modal_step ops (testimonialsItem_click a s)))
           = testimonial_content (testimonialsItems s ! b) \<and>
         \<not> is_active (modalContainer (copy_testimonial (testimonialsItems s ! b)
             (fold modal_step ops (testimonialsItem_click a s)))) \<and>
         testimonialsItem_click b (fold modal_step ops (testimonialsItem_click a s))
           = testimonialsModalFunc (copy_testimonial (testimonialsItems s ! b)
               (fold modal_step ops (testimonialsItem_click a s))) \<and>
         modal_content (testimonialsItem_click b (fold modal_step ops (testimonialsItem_click a s)))
           = testimonial_content (testimonialsItems s ! b) \<and>
         is_active (modalContainer
           (testimonialsItem_click b (fold modal_step ops (testimonialsItem_click a s)))) \<and>
         (c < length (testimonialsItems r) \<longrightarrow>
            (avatar (testimonialsItems r ! c) = None \<longrightarrow>
               modalImg (testimonialsItem_click c r) = modalImg r) \<and>
            (item_title (testimonialsItems r ! c) = None \<longrightarrow>
               modalTitle (testimonialsItem_click c r) = modalTitle r) \<and>
            (item_text (testimonialsItems r ! c) = None \<longrightarrow>
               modalText (testimonialsItem_click c r) = modalText r))"
proof -
  let ?s' = "fold modal_step ops (testimonialsItem_click a s)"
  have click: "testimonialsItem_click a s = modal_step (ItemClick a) s" by simp
  have s': "modal_fields_present ?s'" "testimonialsItems ?s' = testimonialsItems s"
    using assms(1) unfolding click by (simp_all del: modal_step.simps)
  have present: "modalContainer ?s' \<noteq> None"
    using assms(2) unfolding click by (simp add: fold_modal_present del: modal_step.simps)
  have skips: "modalImg (testimonialsItem_click c r) = modalImg r"
    if "c < length (testimonialsItems r)" "avatar (testimonialsItems r ! c) = None"
    using that by (simp add: testimonialsItem_click_def copy_skips)
  have skips2: "modalTitle (testimonialsItem_click c r) = modalTitle r"
    if "c < length (testimonialsItems r)" "item_title (testimonialsItems r ! c) = None"
    using that by (simp add: testimonialsItem_click_def copy_skips)
  have skips3: "modalText (testimonialsItem_click c r) = modalText r"
    if "c < length (testimonialsItems r)" "item_text (testimonialsItems r ! c) = None"
    using that by (simp add: testimonialsItem_click_def copy_skips)
  show ?thesis
    using assms(3-5) s' present skips skips2 skips3
    by (simp add: testimonialsItem_click_def copy_content modalFunc_opens)
qed

text \<open>
  The amended C4 on the example document: open the first item, close, open the second; and
  a click on the item without a title, which leaves the modal's title alone.
\<close>

theorem modal_shows_last_clicked_witness:
  "modal_fields_present example_dom \<and> modalContainer example_dom \<noteq> None \<and>
   1 < length (testimonialsItems example_dom) \<and>
   complete (testimonialsItems example_dom ! 1) \<and>
   \<not> is_active (modalContainer
       (fold modal_step [CloseBtnClick] (testimonialsItem_click 0 example_dom))) \<and>
   modal_content (testimonialsItem_click 1
       (fold modal_step [CloseBtnClick] (testimonialsItem_click 0 example_dom)))
     = (Some \<lparr>src = ''avatar-2.png'', alt = ''Jessica''\<rparr>, Some ''Jessica'', Some ''Very reliable.'') \<and>
   is_active (modalContainer (testimonialsItem_click 1
       (fold modal_step [CloseBtnClick] (testimonialsItem_click 0 example_dom)))) \<and>
   1 < length (testimonialsItems untitled_dom) \<and>
   item_title (testimonialsItems untitled_dom ! 1) = None \<and>
   modalTitle (testimonialsItem_click 1 untitled_dom) = modalTitle untitled_dom"
proof -
  have closed: "\<not> is_active (modalContainer
       (fold modal_step [CloseBtnClick] (testimonialsItem_click 0 example_dom)))"
    by (simp add: example_dom_def testimonialsItem_click_def modalCloseBtn_click_def
        testimonialsModalFunc_def is_active_def classList_toggle_def Let_def)
  have hyps: "modal_fields_present example_dom" "modalContainer example_dom \<noteq> None"
    "1 < length (testimonialsItems example_dom)" "complete (testimonialsItems example_dom ! 1)"
    by (simp_all add: example_dom_def modal_fields_present_def complete_def)
  have hyps2: "1 < length (testimonialsItems untitled_dom)"
    "item_title (testimonialsItems untitled_dom ! 1) = None"
    by (simp_all add: untitled_dom_def example_dom_def)
  have content: "testimonial_content (testimonialsItems example_dom ! 1)
      = (Some \<lparr>src = ''avatar-2.png'', alt = ''Jessica''\<rparr>, Some ''Jessica'', Some ''Very reliable.'')"
    by (simp add: example_dom_def testimonial_content_def)
  note main = modal_shows_last_clicked [OF hyps closed, of 1 untitled_dom]
  from main have "modal_content (testimonialsItem_click 1
       (fold modal_step [CloseBtnClick] (testimonialsItem_click 0 example_dom)))
     = testimonial_content (testimonialsItems example_dom ! 1)"
    by blast
  then have shown: "modal_content (testimonialsItem_click 1
       (fold modal_step [CloseBtnClick] (testimonialsItem_click 0 example_dom)))
     = (Some \<lparr>src = ''avatar-2.png'', alt = ''Jessica''\<rparr>, Some ''Jessica'', Some ''Very reliable.'')"
    by (simp only: content)
  from main have visible: "is_active (modalContainer (testimonialsItem_click 1
       (fold modal_step [CloseBtnClick] (testimonialsItem_click 0 example_dom))))"
    by blast
  from main hyps2 have kept: "modalTitle (testimonialsItem_click 1 untitled_dom) = modalTitle untitled_dom"
    by blast
  show ?thesis
    by (intro conjI) (fact hyps closed shown visible hyps2 kept)+
qed

text \<open>
  C4 as stated fails when the second item has no title element: the guard skips the
  copy, and the modal opened on the second item still shows the first item's title.
\<close>

theorem modal_keeps_earlier_title:
  "modalTitle (testimonialsItem_click 1
       (modalCloseBtn_click (testimonialsItem_click 0 untitled_dom)))
     = item_title (testimonialsItems untitled_dom ! 0) \<and>
   modal_content (testimonialsItem_click 1
       (modalCloseBtn_click (testimonialsItem_click 0 untitled_dom)))
     \<noteq> testimonial_content (testimonialsItems untitled_dom ! 1)"
proof -
  define s1 where "s1 = testimonialsItem_click 0 untitled_dom"
  define s2 where "s2 = modalCloseBtn_click s1"
  have items: "testimonialsItems untitled_dom =
       [\<lparr>avatar = Some \<lparr>src = ''avatar-1.png'', alt = ''Daniel''\<rparr>,
         item_title = Some ''Daniel'', item_text = Some ''Great work.''\<rparr>,
        \<lparr>avatar = Some \<lparr>src = ''avatar-2.png'', alt = ''Jessica''\<rparr>,
         item_title = None, item_text = Some ''Very reliable.''\<rparr>]"
    and title0: "modalTitle untitled_dom = Some []"
    by (simp_all add: untitled_dom_def example_dom_def)
  have "testimonialsItems s1 = testimonialsItems (modal_step (ItemClick 0) untitled_dom)"
    by (simp add: s1_def)
  then have items1: "testimonialsItems s1 = testimonialsItems untitled_dom"
    by (simp only: modal_step_fields)
  have "testimonialsItems s2 = testimonialsItems (modal_step CloseBtnClick s1)"
    by (simp add: s2_def)
  then have items2: "testimonialsItems s2 = testimonialsItems untitled_dom"
    by (simp only: modal_step_fields items1)
  have title1: "modalTitle s1 = Some ''Daniel''"
    by (simp add: s1_def modalTitle_click items title0)
  have title2: "modalTitle s2 = Some ''Daniel''"
    by (simp add: s2_def title1)
  have title3: "modalTitle (testimonialsItem_click 1 s2) = Some ''Daniel''"
    by (simp add: modalTitle_click items2 items title2)
  show ?thesis
    using title3 unfolding s2_def s1_def
    by (simp add: items modal_content_def testimonial_content_def)
qed

section \<open>Navigation\<close>

lemma nav_page_step_frame:
  "length (pages (nav_page_step pageName m u)) = length (pages u)"
  "navigationLinks (nav_page_step pageName m u) = navigationLinks u"
  "k \<noteq> m \<Longrightarrow> pages (nav_page_step pageName m u) ! k = pages u ! k"
  "m < length (pages u) \<Longrightarrow>
     pages (nav_page_step pageName m u) ! m = page_update pageName (pages u ! m)"
  "title (nav_page_step pageName m u) =
     (if data_page (pages u ! m) = pageName then capitalize pageName @ '' - Portfolio''
      else title u)"
  by (auto simp: nav_page_step_def Let_def page_update_def)

lemma nav_pages_prefix:
  "m \<le> length (pages s) \<Longrightarrow>
   length (pages (forEach m (nav_page_step pageName) s)) = length (pages s) \<and>
   (\<forall>k<length (pages s).
      pages (forEach m (nav_page_step pageName) s) ! k =
        (if k < m then page_update pageName (pages s ! k) else pages s ! k)) \<and>
   title (forEach m (nav_page_step pageName) s) =
     (if \<exists>k<m. data_page (pages s ! k) = pageName
      then capitalize pageName @ '' - Portfolio'' else title s) \<and>
   navigationLinks (forEach m (nav_page_step pageName) s) = navigationLinks s"
proof (induction m)
  case 0
  then show ?case by simp
next
  case (Suc m)
  define u where "u = forEach m (nav_page_step pageName) s"
  from Suc have IH:
    "length (pages u) = length (pages s)"
    "\<And>k. k < length (pages s) \<Longrightarrow>
       pages u ! k = (if k < m then page_update pageName (pages s ! k) else pages s ! k)"
    "title u = (if \<exists>k<m. data_page (pages s ! k) = pageName
       then capitalize pageName @ '' - Portfolio'' else title s)"
    "navigationLinks u = navigationLinks s"
    and m: "m < length (pages s)"
    by (simp_all add: u_def)
  have cur: "pages u ! m = pages s ! m"
    using IH(2) [OF m] by simp
  have step: "forEach (Suc m) (nav_page_step pageName) s = nav_page_step pageName m u"
    by (simp add: u_def)
  show ?case
    unfolding step
  proof (intro conjI allI impI)
    show "length (pages (nav_page_step pageName m u)) = length (pages s)"
      by (simp add: nav_page_step_frame IH(1))
  next
    fix k assume k: "k < length (pages s)"
    show "pages (nav_page_step pageName m u) ! k =
        (if k < Suc m then page_update pageName (pages s ! k) else pages s ! k)"
    proof (cases "k = m")
      case True
      then show ?thesis
        using m IH(1) cur by (simp add: nav_page_step_frame)
    next
      case False
      with IH(2) [OF k] show ?thesis
        by (simp add: nav_page_step_frame less_Suc_eq)
    qed
  next
    show "title (nav_page_step pageName m u) =
     (if \<exists>k<Suc m. data_page (pages s ! k) = pageName
      then capitalize pageName @ '' - Portfolio'' else title s)"
      using IH(3) cur by (auto simp: nav_page_step_frame less_Suc_eq)
  next
    show "navigationLinks (nav_page_step pageName m u) = navigationLinks s"
      using IH(4) by (simp add: nav_page_step_frame)
  qed
qed

lemma navigateToPage_pages:
  "pages (navigateToPage pageName s) = map (page_update pageName) (pages s)"
  using nav_pages_prefix [of "length (pages s)" s pageName]
  by (auto simp: navigateToPage_def Let_def intro!: nth_equalityI)

lemma navigateToPage_links:
  "navigationLinks (navigateToPage pageName s) = map (nav_link_update pageName) (navigationLinks s)"
  using nav_pages_prefix [of "length (pages s)" s pageName]
  by (simp add: navigateToPage_def Let_def)

lemma navigateToPage_title:
  "title (navigateToPage pageName s) =
     (if pageName \<in> set (map data_page (pages s))
      then capitalize pageName @ '' - Portfolio'' else title s)"
proof -
  have "(\<exists>k<length (pages s). data_page (pages s ! k) = pageName)
          \<longleftrightarrow> pageName \<in> set (map data_page (pages s))"
    by (force simp: in_set_conv_nth)
  then show ?thesis
    using nav_pages_prefix [of "length (pages s)" s pageName]
    by (simp add: navigateToPage_def Let_def)
qed

lemma page_update_simps [simp]:
  "data_page (page_update pageName p) = data_page p"
  "page_active (page_update pageName p) \<longleftrightarrow> data_page p = pageName"
  by (auto simp: page_update_def page_active_def)

lemma nav_link_update_simps [simp]:
  "link_innerHTML (nav_link_update pageName l) = link_innerHTML l"
  "link_active (nav_link_update pageName l) \<longleftrightarrow> toLowerCase (link_innerHTML l) = pageName"
  by (auto simp: nav_link_update_def link_active_def Let_def)

text \<open>The model's case conversions are the letter tables.\<close>

lemma upper_char_table: "\<forall>c. upper_char c = letter_upper c"
  by code_simp

lemma lower_char_table: "\<forall>c. lower_char c = letter_lower c"
  by code_simp

lemma capitalize_first_letter: "capitalize pageName = first_letter_upper pageName"
  by (cases pageName) (simp_all add: capitalize_def toUpperCase_def upper_char_table)

lemma toLowerCase_letters: "toLowerCase txt = map letter_lower txt"
  by (simp add: toLowerCase_def lower_char_table)

text \<open>
  C2. Let \<open>pageName\<close> be the \<^verbatim>\<open>data-page\<close> of a page, the pages having pairwise
  different names. After \<^verbatim>\<open>navigateToPage(pageName)\<close> a page carries \<^verbatim>\<open>active\<close>
  exactly when its \<^verbatim>\<open>data-page\<close> is \<open>pageName\<close>, which is so for exactly one page; a
  navigation link carries \<^verbatim>\<open>active\<close> exactly when its label, each upper-case letter
  replaced by its lower-case letter, is \<open>pageName\<close>; and the title is the page name with
  its first letter in upper case, followed by \<^verbatim>\<open> - Portfolio\<close>. The pages' names and
  the links' labels are unchanged.
\<close>

theorem navigateToPage_known:
  assumes known: "pageName \<in> set (map data_page (pages s))"
    and names: "distinct (map data_page (pages s))"
  shows "map data_page (pages (navigateToPage pageName s)) = map data_page (pages s) \<and>
         (\<forall>k<length (pages s).
            page_active (pages (navigateToPage pageName s) ! k)
              \<longleftrightarrow> data_page (pages s ! k) = pageName) \<and>
         (\<exists>!k. k < length (pages s) \<and> page_active (pages (navigateToPage pageName s) ! k)) \<and>
         map link_innerHTML (navigationLinks (navigateToPage pageName s))
           = map link_innerHTML (navigationLinks s) \<and>
         (\<forall>k<length (navigationLinks s).
            link_active (navigationLinks (navigateToPage pageName s) ! k)
              \<longleftrightarrow> map letter_lower (link_innerHTML (navigationLinks s ! k)) = pageName) \<and>
         title (navigateToPage pageName s) = first_letter_upper pageName @ '' - Portfolio''"
proof -
  have act: "page_active (pages (navigateToPage pageName s) ! k)
      \<longleftrightarrow> data_page (pages s ! k) = pageName" if "k < length (pages s)" for k
    using that by (simp add: navigateToPage_pages)
  from known obtain i where i: "i < length (pages s)" "data_page (pages s ! i) = pageName"
    by (auto simp: in_set_conv_nth)
  have uniq: "k = i" if "k < length (pages s)" "data_page (pages s ! k) = pageName" for k
    using that i names by (auto simp: distinct_conv_nth)
  have one: "\<exists>!k. k < length (pages s) \<and> page_active (pages (navigateToPage pageName s) ! k)"
  proof (rule ex1I [of _ i])
    show "i < length (pages s) \<and> page_active (pages (navigateToPage pageName s) ! i)"
      using i act by simp
  next
    fix k assume "k < length (pages s) \<and> page_active (pages (navigateToPage pageName s) ! k)"
    then show "k = i" using act uniq by blast
  qed
  show ?thesis
    using act one known
    by (simp add: navigateToPage_pages navigateToPage_links navigateToPage_title comp_def
        capitalize_first_letter toLowerCase_letters)
qed

text \<open>C2 on the example document, for the page \<^verbatim>\<open>portfolio\<close>.\<close>

theorem navigateToPage_known_witness:
  "''portfolio'' \<in> set (map data_page (pages example_dom)) \<and>
   distinct (map data_page (pages example_dom)) \<and>
   map page_active (pages (navigateToPage ''portfolio'' example_dom)) = [False, False, True, False] \<and>
   map link_active (navigationLinks (navigateToPage ''portfolio'' example_dom)) = [False, False, True, False] \<and>
   title (navigateToPage ''portfolio'' example_dom) = ''Portfolio - Portfolio''"
proof -
  have known: "''portfolio'' \<in> set (map data_page (pages example_dom))"
    and names: "distinct (map data_page (pages example_dom))"
    by (simp_all add: example_dom_def)
  have cap: "first_letter_upper ''portfolio'' = ''Portfolio''"
    by code_simp
  from navigateToPage_known [OF known names]
  have "title (navigateToPage ''portfolio'' example_dom) = first_letter_upper ''portfolio'' @ '' - Portfolio''"
    by blast
  then have ttl: "title (navigateToPage ''portfolio'' example_dom) = ''Portfolio - Portfolio''"
    unfolding cap by simp
  have pgs: "map page_active (pages (navigateToPage ''portfolio'' example_dom)) = [False, False, True, False]"
    by (simp add: example_dom_def navigateToPage_pages)
  have lnk: "map link_active (navigationLinks (navigateToPage ''portfolio'' example_dom)) = [False, False, True, False]"
    by (simp add: example_dom_def navigateToPage_links)
  show ?thesis
    using known names pgs lnk ttl by (intro conjI)
qed

text \<open>
  Where the fallback to \<^verbatim>\<open>about\<close> is in place: \<^verbatim>\<open>initializePage\<close> takes it for
  an empty fragment and for a fragment that names no page, the popstate handler for an
  empty fragment only.
\<close>

lemma initializePage_fallback:
  "drop 1 (location_hash s) = [] \<or> drop 1 (location_hash s) \<notin> set (map data_page (pages s)) \<Longrightarrow>
   initializePage s = navigateToPage ''about'' s"
  by (auto simp: initializePage_def Let_def)

lemma popstate_empty:
  "drop 1 (location_hash s) = [] \<Longrightarrow> popstate s = navigateToPage ''about'' s"
  by (simp add: popstate_def)

lemma popstate_nonempty:
  "drop 1 (location_hash s) \<noteq> [] \<Longrightarrow> popstate s = navigateToPage (drop 1 (location_hash s)) s"
  by (simp add: popstate_def Let_def)

text \<open>
  C1, the defect. With the fragment \<^verbatim>\<open>#xyz\<close>, which names no page of the example
  document, the popstate handler leaves no page active, where \<^verbatim>\<open>initializePage\<close>
  activates \<^verbatim>\<open>about\<close>.
\<close>

theorem popstate_unknown:
  "map page_active (pages (popstate (example_dom\<lparr>location_hash := ''#xyz''\<rparr>)))
     = [False, False, False, False] \<and>
   map page_active (pages (initializePage (example_dom\<lparr>location_hash := ''#xyz''\<rparr>)))
     = [True, False, False, False]"
  by (simp add: popstate_def initializePage_def Let_def navigateToPage_pages example_dom_def
      page_update_def page_active_def)

section \<open>Filter\<close>

lemma filter_matches_category:
  "category a = category b \<Longrightarrow> filter_matches v a = filter_matches v b"
  by (simp add: filter_matches_def)

lemma filter_step_hit:
  assumes "filter_matches v (filterItems u ! m)"
  shows "filter_step v m u = setTimeout (Reveal m) 50 u"
  using assms by (simp add: filter_step_def Let_def)

lemma filter_step_miss:
  assumes "\<not> filter_matches v (filterItems u ! m)"
  shows "filter_step v m u =
     u\<lparr>filterItems := (filterItems u)
        [m := (filterItems u ! m)\<lparr>item_classes := item_classes (filterItems u ! m) - {''active''}\<rparr>]\<rparr>"
  using assms by (simp add: filter_step_def Let_def)

lemma filter_inv_0: "filter_inv v s 0 s"
  by (simp add: filter_inv_def)

lemma filter_inv_Suc:
  assumes inv: "filter_inv v s m u" and m: "m < length (filterItems s)"
  shows "filter_inv v s (Suc m) (filter_step v m u)"
proof -
  from inv have len: "length (filterItems u) = length (filterItems s)"
    and cat: "map category (filterItems u) = map category (filterItems s)"
    by (simp_all add: filter_inv_def)
  have "category (filterItems u ! m) = map category (filterItems u) ! m"
    using m len by simp
  also have "\<dots> = category (filterItems s ! m)"
    using m cat by simp
  finally have same: "filter_matches v (filterItems u ! m) = filter_matches v (filterItems s ! m)"
    by (rule filter_matches_category)
  show ?thesis
  proof (cases "filter_matches v (filterItems s ! m)")
    case True
    with same have step: "filter_step v m u = setTimeout (Reveal m) 50 u"
      by (simp add: filter_step_hit)
    show ?thesis
      unfolding step using inv True
      by (auto simp: filter_inv_def setTimeout_def less_Suc_eq Suc_le_eq order_le_less)
  next
    case False
    with same have step: "filter_step v m u =
       u\<lparr>filterItems := (filterItems u)
          [m := (filterItems u ! m)\<lparr>item_classes := item_classes (filterItems u ! m) - {''active''}\<rparr>]\<rparr>"
      by (simp add: filter_step_miss)
    have cat': "map category ((filterItems u)
          [m := (filterItems u ! m)\<lparr>item_classes := item_classes (filterItems u ! m) - {''active''}\<rparr>])
        = map category (filterItems u)"
      using m len by (intro nth_equalityI) (simp_all add: nth_list_update)
    show ?thesis
      unfolding step using inv False m cat'
      by (auto simp: filter_inv_def less_Suc_eq item_active_def nth_list_update)
  qed
qed

lemma filter_inv_forEach:
  "m \<le> length (filterItems s) \<Longrightarrow> filter_inv v s m (forEach m (filter_step v) s)"
  by (induction m) (simp_all add: filter_inv_0 filter_inv_Suc)

lemma filterFunc_inv:
  "filter_inv v s (length (filterItems s)) (filterFunc v s)"
  by (simp add: filterFunc_def filter_inv_forEach)

text \<open>
  Where the filter does settle as selected. In a well-formed timer state let
  \<^verbatim>\<open>filterFunc\<close> run with the selected value \<open>v\<close> and at least 50 ms pass with no
  further event. Then every item that \<open>v\<close> matches is visible; and when no reveal of an
  earlier selection was still pending, the visible items are exactly the matching ones.
\<close>

lemma filter_eventually:
  assumes ok: "timers_ok s" and T: "now s + 50 \<le> T"
  shows "map category (filterItems (advance T (filterFunc v s))) = map category (filterItems s) \<and>
     (\<forall>k<length (filterItems s). filter_matches v (filterItems s ! k) \<longrightarrow>
        item_active (filterItems (advance T (filterFunc v s)) ! k)) \<and>
     (v = ''all'' \<longrightarrow>
        (\<forall>k<length (filterItems s). item_active (filterItems (advance T (filterFunc v s)) ! k))) \<and>
     (no_reveal_pending s \<longrightarrow>
        (\<forall>k<length (filterItems s).
           item_active (filterItems (advance T (filterFunc v s)) ! k)
             \<longleftrightarrow> filter_matches v (filterItems s ! k)))"
proof -
  define u where "u = filterFunc v s"
  define n where "n = length (filterItems s)"
  have inv: "filter_inv v s n u"
    unfolding u_def n_def by (rule filterFunc_inv)
  then have len: "length (filterItems u) = n"
    and cat: "map category (filterItems u) = map category (filterItems s)"
    and inputs: "formInputs u = formInputs s"
    and act: "\<And>j. j < n \<Longrightarrow> item_active (filterItems u ! j) \<longleftrightarrow>
        item_active (filterItems s ! j) \<and> filter_matches v (filterItems s ! j)"
    and old: "\<And>x. x \<in> set (timers u) \<Longrightarrow> x \<in> set (timers s) \<or>
        (\<exists>j<n. callback x = Reveal j \<and> filter_matches v (filterItems s ! j))"
    and new: "\<And>j. j < n \<Longrightarrow> filter_matches v (filterItems s ! j) \<Longrightarrow>
        \<exists>x\<in>set (timers u). callback x = Reveal j \<and> due x = now s + 50 \<and>
           next_timer s \<le> timer_id x"
    by (auto simp: filter_inv_def n_def)
  from ok have slots: "\<And>inp t. inp \<in> set (formInputs s) \<Longrightarrow> timeout inp = Some t \<Longrightarrow> t < next_timer s"
    and later: "\<And>x i. x \<in> set (timers s) \<Longrightarrow> callback x = Later i \<Longrightarrow> i < length (formInputs s)"
    by (auto simp: timers_ok_def list_all_iff slot_ok_def timer_ok_def split: option.splits)
  have valid: "\<forall>x\<in>set (timers u). \<forall>i. callback x = Later i \<longrightarrow> i < length (formInputs u)"
    using old later inputs by fastforce
  have hit: "item_active (filterItems (advance T u) ! k)"
    if k: "k < n" and m: "filter_matches v (filterItems s ! k)" for k
  proof -
    from new [OF k m] obtain x where x: "x \<in> set (timers u)" "callback x = Reveal k"
      "due x = now s + 50" "next_timer s \<le> timer_id x"
      by blast
    have "Some (timer_id x) \<notin> set (map timeout (formInputs u))"
    proof
      assume "Some (timer_id x) \<in> set (map timeout (formInputs u))"
      then obtain inp where "inp \<in> set (formInputs s)" "timeout inp = Some (timer_id x)"
        using inputs by auto
      from slots [OF this] x(4) show False by simp
    qed
    with x T k len valid show ?thesis
      by (intro advance_reveals [where tm = x]) simp_all
  qed
  have only: "filter_matches v (filterItems s ! k)"
    if k: "k < n" and a: "item_active (filterItems (advance T u) ! k)"
      and none: "no_reveal_pending s" for k
  proof -
    from advance_items [where T = T and s = u] k a len
    consider "item_active (filterItems u ! k)"
      | x where "x \<in> set (timers u)" "callback x = Reveal k"
      by auto
    then show ?thesis
    proof cases
      case 1
      with act [OF k] show ?thesis by simp
    next
      case 2
      from old [OF 2(1)] show ?thesis
      proof
        assume "x \<in> set (timers s)"
        with none 2(2) show ?thesis
          by (auto simp: no_reveal_pending_def list_all_iff is_reveal_def)
      next
        assume "\<exists>j<n. callback x = Reveal j \<and> filter_matches v (filterItems s ! j)"
        with 2(2) show ?thesis by auto
      qed
    qed
  qed
  have "map category (filterItems (advance T u)) = map category (filterItems s)"
    using advance_items [where T = T and s = u] cat by simp
  moreover have "v = ''all'' \<Longrightarrow> filter_matches v item" for item
    by (simp add: filter_matches_def)
  ultimately show ?thesis
    using hit only unfolding u_def [symmetric] n_def [symmetric] by blast
qed

lemma filterFunc_settles:
  assumes "timers_ok s" and "now s + 50 \<le> T" and "no_reveal_pending s"
    and "k < length (filterItems s)"
  shows "item_active (filterItems (advance T (filterFunc v s)) ! k)
           \<longleftrightarrow> v = ''all'' \<or> category (filterItems s ! k) = Some v"
  using filter_eventually [OF assms(1,2), of v] assms(3,4)
  by (auto simp: filter_matches_def)

lemma filterFunc_all:
  assumes "timers_ok s" and "now s + 50 \<le> T" and "k < length (filterItems s)"
  shows "item_active (filterItems (advance T (filterFunc ''all'' s)) ! k)"
  using filter_eventually [OF assms(1,2), of "''all''"] assms(3) by simp

text \<open>
  C3, the defect. On the example document, whose items have the categories
  \<^verbatim>\<open>web design\<close>, \<^verbatim>\<open>applications\<close> and \<^verbatim>\<open>web design\<close>, the selection
  \<^verbatim>\<open>applications\<close> made within 50 ms of the selection \<^verbatim>\<open>web design\<close> ends with all
  three items visible: the reveals that the first selection scheduled are never
  cancelled and fire after the second selection has hidden the items. Made on its own,
  the selection \<^verbatim>\<open>applications\<close> ends with the second item visible and no other.
\<close>

theorem filter_stale_reveal:
  "map category (filterItems example_dom)
     = [Some ''web design'', Some ''applications'', Some ''web design''] \<and>
   timers_ok (filterFunc ''web design'' example_dom) \<and>
   map item_active (filterItems
     (advance 50 (filterFunc ''applications'' (filterFunc ''web design'' example_dom))))
     = [True, True, True] \<and>
   map item_active (filterItems (advance 50 (filterFunc ''applications'' example_dom)))
     = [False, True, False]"
  by (simp add: example_dom_def timers_ok_def slot_ok_def timer_ok_def
      filter_matches_def filterFunc_def filter_step_def setTimeout_def Let_def
      advance.simps fire_def reveal_def item_active_def)

section \<open>Form\<close>

lemma validateForm_btn:
  "form s \<Longrightarrow> btn_disabled (validateForm s) = map_option (\<lambda>_. \<not> checkValidity s) (formBtn s)"
  by (cases "formBtn s") (simp_all add: validateForm_def set_disabled_def btn_disabled_def)

lemma validateForm_present [simp]:
  "formBtn (validateForm s) = None \<longleftrightarrow> formBtn s = None"
  by (simp add: validateForm_def set_disabled_def)

lemma checkValidity_cong:
  "formInputs s = formInputs s' \<Longrightarrow> checkValidity s = checkValidity s'"
  by (simp add: checkValidity_def)

lemma fire_other:
  assumes inv: "debounce_pending T i ours pre post u"
    and pk: "pick pre = Some (y, ys)" and le: "due y \<le> T"
  shows "\<exists>pre' post'. debounce_pending T i ours pre' post'
           (fire y (u\<lparr>timers := ys @ ours # post, now := max (now u) (due y)\<rparr>))"
proof -
  define u1 where "u1 = u\<lparr>timers := ys @ ours # post, now := max (now u) (due y)\<rparr>"
  from pk have pre: "set pre = insert y (set ys)" by (rule pick_set)
  from inv have base:
    "due ours = T" "callback ours = Later i" "\<forall>x\<in>set post. T < due x"
    "\<forall>x\<in>set pre. T < due x + 2000" "i < length (formInputs u)"
    "timeout (formInputs u ! i) = Some (timer_id ours)"
    "\<forall>x\<in>set pre \<union> set post. \<forall>j. callback x = Later j \<longrightarrow>
        j < length (formInputs u) \<and> timeout (formInputs u ! j) \<noteq> Some (timer_id ours)"
    "form u" "formBtn u \<noteq> None"
    by (simp_all add: debounce_pending_def)
  show ?thesis
    unfolding u1_def [symmetric]
  proof (cases "callback y")
    case (Reveal k)
    have "debounce_pending T i ours ys post (fire y u1)"
      using base pre Reveal
      by (auto simp: debounce_pending_def fire_def reveal_def u1_def)
    then show "\<exists>pre' post'. debounce_pending T i ours pre' post' (fire y u1)" by blast
  next
    case (Later j)
    with base(7) pre have j: "j < length (formInputs u)"
      "timeout (formInputs u ! j) \<noteq> Some (timer_id ours)"
      by auto
    define P where "P = (\<lambda>tm :: timer. Some (timer_id tm) \<noteq> timeout (formInputs u ! j))"
    have tim: "timers (fire y u1) = filter P ys @ ours # filter P post"
      using Later j(2)
      by (cases "timeout (formInputs u ! j)")
         (auto simp: fire_def later_def clearTimeout_def u1_def P_def intro: filter_cong)
    have rest: "formInputs (fire y u1) = formInputs u" "form (fire y u1) = form u"
      "formBtn (fire y u1) \<noteq> None"
      using Later base(9) by (simp_all add: fire_def later_def u1_def)
    have "debounce_pending T i ours (filter P ys) (filter P post) (fire y u1)"
      using base pre tim rest by (auto simp: debounce_pending_def)
    then show "\<exists>pre' post'. debounce_pending T i ours pre' post' (fire y u1)" by blast
  next
    case (SubmitSent h)
    define new where "new = \<lparr>timer_id = next_timer u, due = max (now u) (due y) + 2000,
      callback = SubmitReset h\<rparr>"
    have "T < due y + 2000" using base(4) pre by simp
    then have late: "T < due new" by (simp add: new_def)
    have tim: "timers (fire y u1) = ys @ ours # (post @ [new])"
      using SubmitSent
      by (simp add: fire_def submit_sent_def setTimeout_def set_btn_innerHTML_def u1_def new_def)
    have rest: "formInputs (fire y u1) = formInputs u" "form (fire y u1) = form u"
      "formBtn (fire y u1) \<noteq> None"
      using SubmitSent base(9)
      by (simp_all add: fire_def submit_sent_def setTimeout_def set_btn_innerHTML_def u1_def)
    have "debounce_pending T i ours ys (post @ [new]) (fire y u1)"
      using base pre tim rest late by (auto simp: debounce_pending_def new_def)
    then show "\<exists>pre' post'. debounce_pending T i ours pre' post' (fire y u1)" by blast
  next
    case (SubmitReset h)
    have tim: "timers (fire y u1) = ys @ ours # post"
      using SubmitReset
      by (simp add: fire_def submit_reset_def form_reset_def set_btn_innerHTML_def u1_def Let_def)
    have len: "length (formInputs (fire y u1)) = length (formInputs u)"
      and slots: "map timeout (formInputs (fire y u1)) = map timeout (formInputs u)"
      using fire_inputs [where tm = y and s = u1] by (simp_all add: u1_def)
    have slot: "timeout (formInputs (fire y u1) ! j) = timeout (formInputs u ! j)"
      if "j < length (formInputs u)" for j
      using that len nth_map [of j "formInputs (fire y u1)" timeout]
        nth_map [of j "formInputs u" timeout] slots by simp
    have rest: "form (fire y u1) = form u" "formBtn (fire y u1) \<noteq> None"
      using SubmitReset base(9)
      by (simp_all add: fire_def submit_reset_def form_reset_def set_btn_innerHTML_def u1_def Let_def)
    have "debounce_pending T i ours ys post (fire y u1)"
      using base pre tim rest len slot by (auto simp: debounce_pending_def)
    then show "\<exists>pre' post'. debounce_pending T i ours pre' post' (fire y u1)" by blast
  qed
qed

lemma fire_ours:
  assumes inv: "debounce_pending T i ours pre post u" and late: "\<forall>x\<in>set pre. T < due x"
  shows "btn_disabled (advance T (fire ours (u\<lparr>timers := pre @ post, now := n\<rparr>)))
           = Some (\<not> checkValidity (advance T (fire ours (u\<lparr>timers := pre @ post, now := n\<rparr>))))"
proof -
  define u1 where "u1 = clearTimeout (timeout (formInputs u ! i)) (u\<lparr>timers := pre @ post, now := n\<rparr>)"
  from inv have base: "callback ours = Later i" "\<forall>x\<in>set post. T < due x" "form u" "formBtn u \<noteq> None"
    by (simp_all add: debounce_pending_def)
  have fire: "fire ours (u\<lparr>timers := pre @ post, now := n\<rparr>) = validateForm u1"
    using base(1) by (simp add: fire_def later_def u1_def)
  have u1: "form u1" "formBtn u1 = formBtn u" "formInputs u1 = formInputs u"
    using base(3) by (simp_all add: u1_def)
  have "\<forall>x\<in>set (timers u1). T < due x"
    using late base(2) clearTimeout_sub [of _ "timeout (formInputs u ! i)" "u\<lparr>timers := pre @ post, now := n\<rparr>"]
    by (auto simp: u1_def)
  then have stop: "advance T (validateForm u1) = (validateForm u1)\<lparr>now := max (now (validateForm u1)) T\<rparr>"
    by (intro advance_stop) simp
  have "btn_disabled (validateForm u1) = Some (\<not> checkValidity u1)"
    using validateForm_btn [OF u1(1)] u1(2) base(4) by auto
  moreover have "checkValidity (validateForm u1) = checkValidity u1"
    by (rule checkValidity_cong) simp
  ultimately show ?thesis
    unfolding fire stop by (simp add: btn_disabled_def checkValidity_def)
qed

lemma advance_debounce:
  "debounce_pending T i ours pre post u \<Longrightarrow>
   btn_disabled (advance T u) = Some (\<not> checkValidity (advance T u))"
proof (induction T u arbitrary: pre post rule: advance.induct)
  case (1 T u)
  note inv = "1.prems"
  from inv have tim: "timers u = pre @ ours # post" and due: "due ours = T"
    and post: "\<forall>x\<in>set post. due ours < due x"
    by (simp_all add: debounce_pending_def)
  note pk = pick_pending [OF post, of pre]
  have ours_case: ?case if late: "\<forall>x\<in>set pre. T < due x"
    and p: "pick (timers u) = Some (ours, pre @ post)"
  proof -
    have "advance T u = advance T (fire ours (u\<lparr>timers := pre @ post, now := max (now u) (due ours)\<rparr>))"
      using p due by (intro advance_step) simp_all
    with fire_ours [OF inv late] show ?thesis by simp
  qed
  show ?case
  proof (cases "pick pre")
    case None
    then have "pre = []" by simp
    with pk tim show ?thesis by (intro ours_case) simp_all
  next
    case (Some q)
    obtain y ys where q: "q = (y, ys)" by (cases q)
    show ?thesis
    proof (cases "due y \<le> T")
      case True
      with Some q pk tim due have p: "pick (timers u) = Some (y, ys @ ours # post)"
        by simp
      from fire_other [OF inv Some [unfolded q] True] obtain pre' post'
        where inv': "debounce_pending T i ours pre' post'
           (fire y (u\<lparr>timers := ys @ ours # post, now := max (now u) (due y)\<rparr>))"
        by blast
      have "advance T u = advance T (fire y (u\<lparr>timers := ys @ ours # post, now := max (now u) (due y)\<rparr>))"
        using p True by (rule advance_step)
      with "1.IH" [OF p refl True inv'] show ?thesis by simp
    next
      case False
      with Some q pk tim due have p: "pick (timers u) = Some (ours, pre @ post)"
        by simp
      have "\<forall>x\<in>set pre. T < due x"
        using pick_min [OF Some [unfolded q]] False by fastforce
      then show ?thesis using p by (rule ours_case)
    qed
  qed
qed

lemma input_event_state:
  assumes "i < length (formInputs s)"
  shows "timers (input_event i v s) =
           timers (clearTimeout (timeout (formInputs s ! i)) s) @
             [\<lparr>timer_id = next_timer s, due = now s + 300, callback = Later i\<rparr>]"
    and "formInputs (input_event i v s) =
           (formInputs s)[i := (formInputs s ! i)\<lparr>input_value := v, timeout := Some (next_timer s)\<rparr>]"
    and "form (input_event i v s) = form s"
    and "formBtn (input_event i v s) = formBtn s"
    and "now (input_event i v s) = now s"
    and "next_timer (input_event i v s) = Suc (next_timer s)"
  using assms
  by (simp_all add: input_event_def debounced_def setTimeout_def clearTimeout_def Let_def
      split: option.splits)

lemma input_event_pending:
  assumes ok: "timers_ok s" and form: "form s" and btn: "formBtn s \<noteq> None"
    and i: "i < length (formInputs s)"
  shows "debounce_pending (now s + 300) i
           \<lparr>timer_id = next_timer s, due = now s + 300, callback = Later i\<rparr>
           (timers (clearTimeout (timeout (formInputs s ! i)) s)) [] (input_event i v s)"
proof -
  define c where "c = timeout (formInputs s ! i)"
  from ok have slots: "\<And>j t. j < length (formInputs s) \<Longrightarrow> timeout (formInputs s ! j) = Some t \<Longrightarrow>
      t < next_timer s"
    and soon: "\<And>x. x \<in> set (timers s) \<Longrightarrow> now s \<le> due x"
    and own: "\<And>x j. x \<in> set (timers s) \<Longrightarrow> callback x = Later j \<Longrightarrow>
      j < length (formInputs s) \<and> timeout (formInputs s ! j) = Some (timer_id x)"
    by (auto simp: timers_ok_def list_all_iff slot_ok_def timer_ok_def split: option.splits)
  have other: "j < length (formInputs (input_event i v s)) \<and>
      timeout (formInputs (input_event i v s) ! j) \<noteq> Some (next_timer s)"
    if x: "x \<in> set (timers (clearTimeout c s))" and cb: "callback x = Later j" for x j
  proof -
    from x have in_s: "x \<in> set (timers s)" by (rule clearTimeout_sub)
    from own [OF in_s cb] have j: "j < length (formInputs s)"
      and slot: "timeout (formInputs s ! j) = Some (timer_id x)" by simp_all
    have "j \<noteq> i"
    proof
      assume "j = i"
      with slot have "c = Some (timer_id x)" by (simp add: c_def)
      with x show False by (simp add: clearTimeout_def)
    qed
    moreover from slots [OF j slot] have "timer_id x \<noteq> next_timer s" by simp
    ultimately show ?thesis
      using j slot i by (simp add: input_event_state)
  qed
  have far: "now s + 300 < due x + 2000" if "x \<in> set (timers (clearTimeout c s))" for x
    using soon [OF clearTimeout_sub [OF that]] by simp
  show ?thesis
    unfolding c_def [symmetric]
    using i form btn other far
    by (auto simp: debounce_pending_def input_event_state c_def [symmetric])
qed

lemma validated_state:
  assumes "btn_disabled s = Some (\<not> checkValidity s)"
  shows "(list_ex (\<lambda>inp. required inp \<and> input_value inp = []) (formInputs s) \<longrightarrow>
            btn_disabled s = Some True) \<and>
         (btn_disabled s = Some False \<longrightarrow>
            list_all (\<lambda>inp. input_value inp \<noteq> [] \<and> format_ok inp (input_value inp))
              (filter required (formInputs s)))"
proof -
  have "\<not> checkValidity s" if "list_ex (\<lambda>inp. required inp \<and> input_value inp = []) (formInputs s)"
    using that by (auto simp: checkValidity_def list_ex_iff list_all_iff input_valid_def)
  moreover have "list_all (\<lambda>inp. input_value inp \<noteq> [] \<and> format_ok inp (input_value inp))
          (filter required (formInputs s))" if "checkValidity s"
    using that by (auto simp: checkValidity_def list_all_iff input_valid_def split: if_splits)
  ultimately show ?thesis
    using assms by auto
qed

text \<open>
  What the debounced validation does establish. In a well-formed timer state, with the
  form and its button in the document, let the value of an input change and 300 ms pass
  with no further event. At that moment the button is disabled exactly when
  \<^verbatim>\<open>checkValidity\<close> fails. And the submit handler leaves any state whose form is
  invalid as it is.
\<close>

lemma validation_after_quiet_period:
  assumes "timers_ok s" and "form s" and "formBtn s \<noteq> None" and "i < length (formInputs s)"
  shows "let s' = advance (now s + 300) (input_event i v s)
         in btn_disabled s' = Some (\<not> checkValidity s') \<and>
            (list_ex (\<lambda>inp. required inp \<and> input_value inp = []) (formInputs s') \<longrightarrow>
               btn_disabled s' = Some True) \<and>
            (btn_disabled s' = Some False \<longrightarrow>
               list_all (\<lambda>inp. input_value inp \<noteq> [] \<and> format_ok inp (input_value inp))
                 (filter required (formInputs s'))) \<and>
            (\<not> checkValidity r \<longrightarrow> submit r = r)"
proof -
  have "btn_disabled (advance (now s + 300) (input_event i v s))
          = Some (\<not> checkValidity (advance (now s + 300) (input_event i v s)))"
    using input_event_pending [OF assms] by (rule advance_debounce)
  moreover have "submit r = r" if "\<not> checkValidity r"
    using that by (simp add: submit_def)
  ultimately show ?thesis
    using validated_state [of "advance (now s + 300) (input_event i v s)"]
    by (simp add: Let_def)
qed

text \<open>
  On the example document: the name is typed, then the e-mail address; 300 ms after the
  second input event the form is valid and the button enabled.
\<close>

lemma validation_after_quiet_period_example:
  "timers_ok (input_event 0 ''Ann'' example_dom) \<and> form (input_event 0 ''Ann'' example_dom) \<and>
   formBtn (input_event 0 ''Ann'' example_dom) \<noteq> None \<and>
   1 < length (formInputs (input_event 0 ''Ann'' example_dom)) \<and>
   btn_disabled (advance 300 (input_event 1 ''a@b'' (input_event 0 ''Ann'' example_dom)))
     = Some False \<and>
   checkValidity (advance 300 (input_event 1 ''a@b'' (input_event 0 ''Ann'' example_dom)))"
proof -
  have hyps: "timers_ok (input_event 0 ''Ann'' example_dom) \<and>
      form (input_event 0 ''Ann'' example_dom) \<and>
      formBtn (input_event 0 ''Ann'' example_dom) \<noteq> None \<and>
      1 < length (formInputs (input_event 0 ''Ann'' example_dom)) \<and>
      now (input_event 0 ''Ann'' example_dom) = 0"
    by (simp add: example_dom_def input_event_def debounced_def setTimeout_def clearTimeout_def
        Let_def timers_ok_def slot_ok_def timer_ok_def)
  have enabled:
    "btn_disabled (advance 300 (input_event 1 ''a@b'' (input_event 0 ''Ann'' example_dom)))
       = Some False"
    by (simp add: example_dom_def input_event_def debounced_def setTimeout_def clearTimeout_def
        Let_def advance.simps fire_def later_def validateForm_def set_disabled_def
        checkValidity_def input_valid_def btn_disabled_def)
  from hyps validation_after_quiet_period
    [of "input_event 0 ''Ann'' example_dom" 1 "''a@b''" "input_event 0 ''Ann'' example_dom"]
  have "btn_disabled (advance 300 (input_event 1 ''a@b'' (input_event 0 ''Ann'' example_dom)))
      = Some (\<not> checkValidity (advance 300 (input_event 1 ''a@b'' (input_event 0 ''Ann'' example_dom))))"
    by (simp add: Let_def)
  with hyps enabled show ?thesis by simp
qed

text \<open>
  C7, the defect. The filled-in example form is submitted; 3600 ms later, while the button
  shows the sent state, the visitor edits the name. 300 ms after that input event the
  form is valid and the button enabled. 100 ms later, with no further event, the reset of
  the submission empties the two required inputs without validating again: the button
  is still enabled, and the form is invalid.
\<close>

theorem validation_undone_by_reset:
  "timers_ok (advance 3600 (submit filled_dom)) \<and>
   btn_disabled (advance 3900 (input_event 0 ''Anna'' (advance 3600 (submit filled_dom))))
     = Some False \<and>
   checkValidity (advance 3900 (input_event 0 ''Anna'' (advance 3600 (submit filled_dom)))) \<and>
   btn_disabled (advance 4000 (input_event 0 ''Anna'' (advance 3600 (submit filled_dom))))
     = Some False \<and>
   map required (formInputs (advance 4000 (input_event 0 ''Anna'' (advance 3600 (submit filled_dom)))))
     = [True, True] \<and>
   map input_value (formInputs (advance 4000 (input_event 0 ''Anna'' (advance 3600 (submit filled_dom)))))
     = [[], []] \<and>
   \<not> checkValidity (advance 4000 (input_event 0 ''Anna'' (advance 3600 (submit filled_dom))))"
  by (simp add: filled_dom_def example_dom_def input_event_def debounced_def setTimeout_def
      clearTimeout_def Let_def advance.simps fire_def later_def validateForm_def set_disabled_def
      checkValidity_def input_valid_def btn_disabled_def submit_def submit_sent_def
      submit_reset_def form_reset_def set_btn_innerHTML_def timers_ok_def slot_ok_def timer_ok_def)

section \<open>The two filter inputs\<close>

text \<open>The select-item handler never writes the button row, on any document.\<close>

lemma forEach_keeps:
  assumes "\<And>k u. P (f k u) = P u"
  shows "P (forEach n f s) = P s"
  by (induction n) (simp_all add: assms)

lemma filter_step_buttons:
  "filterBtns (filter_step v k u) = filterBtns u"
  "lastClickedBtn (filter_step v k u) = lastClickedBtn u"
  "selectValue (filter_step v k u) = selectValue u"
  by (simp_all add: filter_step_def setTimeout_def Let_def)

lemma filterFunc_buttons:
  "filterBtns (filterFunc v s) = filterBtns s"
  "lastClickedBtn (filterFunc v s) = lastClickedBtn s"
  "selectValue (filterFunc v s) = selectValue s"
  unfolding filterFunc_def
  by (rule forEach_keeps, simp add: filter_step_buttons)+

lemma selectItem_click_buttons:
  "filterBtns (final_state (selectItem_click i s)) = filterBtns s \<and>
   lastClickedBtn (final_state (selectItem_click i s)) = lastClickedBtn s"
  by (simp add: selectItem_click_def set_selectValue_def filterFunc_buttons Let_def
      split: option.splits sum.splits)

text \<open>
  C6, the defect. On the example document a click on the select item \<^verbatim>\<open>Applications\<close>
  writes the displayed value of the dropdown and leaves the button row as it was, with
  \<^verbatim>\<open>All\<close> highlighted; a click on the button \<^verbatim>\<open>Applications\<close> updates both.
\<close>

theorem selectItem_click_leaves_buttons:
  "selectValue (final_state (selectItem_click 2 example_dom)) = Some ''Applications'' \<and>
   map btn_active (filterBtns (final_state (selectItem_click 2 example_dom))) = [True, False, False] \<and>
   selectValue (filterBtn_click 2 example_dom) = Some ''Applications'' \<and>
   map btn_active (filterBtns (filterBtn_click 2 example_dom)) = [False, False, True]"
  by (simp add: example_dom_def selectItem_click_def filterBtn_click_def set_selectValue_def
      elementToggleFunc_def classList_toggle_def filterFunc_def filter_step_def filter_matches_def
      setTimeout_def btn_set_active_def btn_active_def Let_def)

text \<open>
  C9, the defect. Without a \<^verbatim>\<open>[data-select]\<close> element a click on a select item throws
  a \<^verbatim>\<open>TypeError\<close>, after the displayed value is written and before any filtering.
\<close>

theorem selectItem_click_throws:
  "selectItem_click 0 (example_dom\<lparr>select := None\<rparr>)
     = Threw TypeError (example_dom\<lparr>select := None, selectValue := Some ''All''\<rparr>)"
  by (simp add: example_dom_def selectItem_click_def set_selectValue_def elementToggleFunc_def Let_def)

section \<open>Well-formed timer states\<close>

text \<open>
  The condition \<open>timers_ok\<close> that the properties of the filter and of the form assume
  holds when no timer is pending and no input has a debounce id yet, and every operation
  that touches timers keeps it: an input event, \<^verbatim>\<open>filterFunc\<close>, a submission, and the
  passing of time.
\<close>

lemma timers_okI:
  assumes "\<And>inp t. inp \<in> set (formInputs s) \<Longrightarrow> timeout inp = Some t \<Longrightarrow> t < next_timer s"
    and "\<And>x. x \<in> set (timers s) \<Longrightarrow> now s \<le> due x"
    and "\<And>x j. x \<in> set (timers s) \<Longrightarrow> callback x = Later j \<Longrightarrow>
           j < length (formInputs s) \<and> timeout (formInputs s ! j) = Some (timer_id x)"
  shows "timers_ok s"
  using assms
  by (auto simp: timers_ok_def list_all_iff slot_ok_def timer_ok_def split: option.splits action.splits)

lemma timers_okD:
  assumes "timers_ok s"
  shows "inp \<in> set (formInputs s) \<Longrightarrow> timeout inp = Some t \<Longrightarrow> t < next_timer s"
    and "x \<in> set (timers s) \<Longrightarrow> now s \<le> due x"
    and "x \<in> set (timers s) \<Longrightarrow> callback x = Later j \<Longrightarrow>
           j < length (formInputs s) \<and> timeout (formInputs s ! j) = Some (timer_id x)"
  using assms
  by (auto simp: timers_ok_def list_all_iff slot_ok_def timer_ok_def split: option.splits)

lemma timers_ok_same:
  assumes "formInputs s' = formInputs s" and "timers s' = timers s" and "now s' = now s"
    and "next_timer s' = next_timer s"
  shows "timers_ok s' = timers_ok s"
  using assms
  by (simp add: timers_ok_def list_all_iff slot_ok_def timer_ok_def
      cong: option.case_cong action.case_cong)

lemma timers_ok_initial:
  "timers s = [] \<Longrightarrow> list_all (\<lambda>inp. timeout inp = None) (formInputs s) \<Longrightarrow> timers_ok s"
  by (simp add: timers_ok_def list_all_iff slot_ok_def)

lemma timers_ok_filterFunc:
  assumes "timers_ok s"
  shows "timers_ok (filterFunc v s)"
proof -
  have inv: "filter_inv v s (length (filterItems s)) (filterFunc v s)"
    by (rule filterFunc_inv)
  then have same: "formInputs (filterFunc v s) = formInputs s" "now (filterFunc v s) = now s"
    and nxt: "next_timer s \<le> next_timer (filterFunc v s)"
    and tim: "\<And>x. x \<in> set (timers (filterFunc v s)) \<Longrightarrow> x \<in> set (timers s) \<or>
        (\<exists>j. callback x = Reveal j \<and> due x = now s + 50)"
    by (auto simp: filter_inv_def)
  show ?thesis
  proof (rule timers_okI)
    fix inp t assume "inp \<in> set (formInputs (filterFunc v s))" "timeout inp = Some t"
    with timers_okD(1) [OF assms] same nxt show "t < next_timer (filterFunc v s)"
      by fastforce
  next
    fix x assume "x \<in> set (timers (filterFunc v s))"
    with tim timers_okD(2) [OF assms] same show "now (filterFunc v s) \<le> due x"
      by fastforce
  next
    fix x j assume "x \<in> set (timers (filterFunc v s))" "callback x = Later j"
    with tim timers_okD(3) [OF assms] same
    show "j < length (formInputs (filterFunc v s)) \<and>
        timeout (formInputs (filterFunc v s) ! j) = Some (timer_id x)"
      by fastforce
  qed
qed

lemma timers_ok_submit:
  assumes "timers_ok s"
  shows "timers_ok (submit s)"
proof (cases "form s \<and> checkValidity s")
  case False
  with assms show ?thesis by (auto simp: submit_def)
next
  case True
  show ?thesis
  proof (rule timers_okI)
    fix inp t assume "inp \<in> set (formInputs (submit s))" "timeout inp = Some t"
    with timers_okD(1) [OF assms] True show "t < next_timer (submit s)"
      by (fastforce simp: submit_def setTimeout_def set_disabled_def set_btn_innerHTML_def Let_def)
  next
    fix x assume "x \<in> set (timers (submit s))"
    with timers_okD(2) [OF assms] True show "now (submit s) \<le> due x"
      by (fastforce simp: submit_def setTimeout_def set_disabled_def set_btn_innerHTML_def Let_def)
  next
    fix x j assume "x \<in> set (timers (submit s))" "callback x = Later j"
    with timers_okD(3) [OF assms] True
    show "j < length (formInputs (submit s)) \<and>
        timeout (formInputs (submit s) ! j) = Some (timer_id x)"
      by (fastforce simp: submit_def setTimeout_def set_disabled_def set_btn_innerHTML_def Let_def)
  qed
qed

lemma timers_ok_input_event:
  assumes ok: "timers_ok s"
  shows "timers_ok (input_event i v s)"
proof (cases "i < length (formInputs s)")
  case False
  with ok show ?thesis by (simp add: input_event_def)
next
  case i: True
  note st = input_event_state [OF i, of v]
  define c where "c = timeout (formInputs s ! i)"
  show ?thesis
  proof (rule timers_okI)
    fix inp t assume "inp \<in> set (formInputs (input_event i v s))" "timeout inp = Some t"
    then obtain k where k: "k < length (formInputs s)"
      "inp = (formInputs s)[i := (formInputs s ! i)\<lparr>input_value := v, timeout := Some (next_timer s)\<rparr>] ! k"
      by (auto simp: st in_set_conv_nth)
    show "t < next_timer (input_event i v s)"
    proof (cases "k = i")
      case True
      with k i \<open>timeout inp = Some t\<close> show ?thesis by (simp add: st)
    next
      case False
      with k \<open>timeout inp = Some t\<close> have "timeout (formInputs s ! k) = Some t" by simp
      with timers_okD(1) [OF ok, of "formInputs s ! k" t] k(1) show ?thesis by (simp add: st)
    qed
  next
    fix x assume "x \<in> set (timers (input_event i v s))"
    then have "x \<in> set (timers s) \<or> due x = now s + 300"
      by (auto simp: st dest: clearTimeout_sub)
    with timers_okD(2) [OF ok] show "now (input_event i v s) \<le> due x"
      by (auto simp: st)
  next
    fix x j assume x: "x \<in> set (timers (input_event i v s))" and cb: "callback x = Later j"
    from x consider "x \<in> set (timers (clearTimeout c s))"
      | "x = \<lparr>timer_id = next_timer s, due = now s + 300, callback = Later i\<rparr>"
      by (auto simp: st c_def)
    then show "j < length (formInputs (input_event i v s)) \<and>
        timeout (formInputs (input_event i v s) ! j) = Some (timer_id x)"
    proof cases
      case 1
      then have in_s: "x \<in> set (timers s)" by (rule clearTimeout_sub)
      from timers_okD(3) [OF ok in_s cb] have j: "j < length (formInputs s)"
        and slot: "timeout (formInputs s ! j) = Some (timer_id x)" by simp_all
      have "j \<noteq> i"
      proof
        assume "j = i"
        with slot have "c = Some (timer_id x)" by (simp add: c_def)
        with 1 show False by (simp add: clearTimeout_def)
      qed
      with j slot show ?thesis by (simp add: st)
    next
      case 2
      with cb have ji: "j = i" by simp
      show ?thesis unfolding ji using i 2 by (simp add: st)
    qed
  qed
qed

lemma timers_ok_fire:
  assumes ok: "timers_ok s"
  shows "timers_ok (fire tm s)"
proof (cases "callback tm")
  case (Reveal k)
  then have "timers_ok (fire tm s) = timers_ok s"
    by (intro timers_ok_same) (simp_all add: fire_def reveal_def)
  with ok show ?thesis by simp
next
  case (Later i)
  define u where "u = clearTimeout (timeout (formInputs s ! i)) s"
  have fire: "fire tm s = validateForm u"
    using Later by (simp add: fire_def later_def u_def)
  show ?thesis
    unfolding fire
  proof (rule timers_okI)
    fix inp t assume "inp \<in> set (formInputs (validateForm u))" "timeout inp = Some t"
    with timers_okD(1) [OF ok] show "t < next_timer (validateForm u)"
      by (simp add: u_def)
  next
    fix x assume "x \<in> set (timers (validateForm u))"
    then have "x \<in> set (timers s)" by (auto simp: u_def dest: clearTimeout_sub)
    with timers_okD(2) [OF ok] show "now (validateForm u) \<le> due x"
      by (simp add: u_def)
  next
    fix x j assume "x \<in> set (timers (validateForm u))" and cb: "callback x = Later j"
    then have "x \<in> set (timers s)" by (auto simp: u_def dest: clearTimeout_sub)
    from timers_okD(3) [OF ok this cb]
    show "j < length (formInputs (validateForm u)) \<and>
        timeout (formInputs (validateForm u) ! j) = Some (timer_id x)"
      by (simp add: u_def)
  qed
next
  case (SubmitSent h)
  show ?thesis
  proof (rule timers_okI)
    fix inp t assume "inp \<in> set (formInputs (fire tm s))" "timeout inp = Some t"
    with timers_okD(1) [OF ok] SubmitSent show "t < next_timer (fire tm s)"
      by (fastforce simp: fire_def submit_sent_def setTimeout_def set_btn_innerHTML_def)
  next
    fix x assume "x \<in> set (timers (fire tm s))"
    with timers_okD(2) [OF ok] SubmitSent show "now (fire tm s) \<le> due x"
      by (fastforce simp: fire_def submit_sent_def setTimeout_def set_btn_innerHTML_def)
  next
    fix x j assume "x \<in> set (timers (fire tm s))" "callback x = Later j"
    with timers_okD(3) [OF ok] SubmitSent
    show "j < length (formInputs (fire tm s)) \<and>
        timeout (formInputs (fire tm s) ! j) = Some (timer_id x)"
      by (fastforce simp: fire_def submit_sent_def setTimeout_def set_btn_innerHTML_def)
  qed
next
  case (SubmitReset h)
  have tim: "timers (fire tm s) = timers s" "now (fire tm s) = now s"
    "next_timer (fire tm s) = next_timer s"
    using SubmitReset
    by (simp_all add: fire_def submit_reset_def form_reset_def set_btn_innerHTML_def Let_def)
  have len: "length (formInputs (fire tm s)) = length (formInputs s)"
    and slots: "map timeout (formInputs (fire tm s)) = map timeout (formInputs s)"
    by (rule fire_inputs)+
  have slot: "timeout (formInputs (fire tm s) ! j) = timeout (formInputs s ! j)"
    if "j < length (formInputs s)" for j
    using that len nth_map [of j "formInputs (fire tm s)" timeout]
      nth_map [of j "formInputs s" timeout] slots by simp
  show ?thesis
  proof (rule timers_okI)
    fix inp t assume "inp \<in> set (formInputs (fire tm s))" "timeout inp = Some t"
    then obtain k where "k < length (formInputs s)" "timeout (formInputs s ! k) = Some t"
      using len slot by (auto simp: in_set_conv_nth)
    with timers_okD(1) [OF ok, of "formInputs s ! k" t] show "t < next_timer (fire tm s)"
      by (simp add: tim)
  next
    fix x assume "x \<in> set (timers (fire tm s))"
    with timers_okD(2) [OF ok] show "now (fire tm s) \<le> due x" by (simp add: tim)
  next
    fix x j assume "x \<in> set (timers (fire tm s))" "callback x = Later j"
    with timers_okD(3) [OF ok, of x j] slot len
    show "j < length (formInputs (fire tm s)) \<and>
        timeout (formInputs (fire tm s) ! j) = Some (timer_id x)"
      by (simp add: tim)
  qed
qed

lemma timers_ok_picked:
  assumes ok: "timers_ok s" and pk: "pick (timers s) = Some (tm, rest)"
  shows "timers_ok (s\<lparr>timers := rest, now := max (now s) (due tm)\<rparr>)"
proof (rule timers_okI)
  fix inp t assume "inp \<in> set (formInputs (s\<lparr>timers := rest, now := max (now s) (due tm)\<rparr>))"
    "timeout inp = Some t"
  with timers_okD(1) [OF ok] show "t < next_timer (s\<lparr>timers := rest, now := max (now s) (due tm)\<rparr>)"
    by simp
next
  fix x assume "x \<in> set (timers (s\<lparr>timers := rest, now := max (now s) (due tm)\<rparr>))"
  then have x: "x \<in> set (timers s)" using pick_set [OF pk] by simp
  with timers_okD(2) [OF ok x] pick_min [OF pk x]
  show "now (s\<lparr>timers := rest, now := max (now s) (due tm)\<rparr>) \<le> due x" by simp
next
  fix x j assume "x \<in> set (timers (s\<lparr>timers := rest, now := max (now s) (due tm)\<rparr>))"
    and cb: "callback x = Later j"
  then have x: "x \<in> set (timers s)" using pick_set [OF pk] by simp
  from timers_okD(3) [OF ok x cb]
  show "j < length (formInputs (s\<lparr>timers := rest, now := max (now s) (due tm)\<rparr>)) \<and>
      timeout (formInputs (s\<lparr>timers := rest, now := max (now s) (due tm)\<rparr>) ! j) = Some (timer_id x)"
    by simp
qed

lemma timers_ok_advance:
  "timers_ok s \<Longrightarrow> timers_ok (advance T s)"
proof (induction T s rule: advance.induct)
  case (1 T s)
  note ok = "1.prems"
  have stop: "timers_ok (s\<lparr>now := max (now s) T\<rparr>)" if "\<forall>x\<in>set (timers s). T < due x"
  proof (rule timers_okI)
    fix inp t assume "inp \<in> set (formInputs (s\<lparr>now := max (now s) T\<rparr>))" "timeout inp = Some t"
    with timers_okD(1) [OF ok] show "t < next_timer (s\<lparr>now := max (now s) T\<rparr>)" by simp
  next
    fix x assume "x \<in> set (timers (s\<lparr>now := max (now s) T\<rparr>))"
    with timers_okD(2) [OF ok, of x] that show "now (s\<lparr>now := max (now s) T\<rparr>) \<le> due x"
      by auto
  next
    fix x j assume "x \<in> set (timers (s\<lparr>now := max (now s) T\<rparr>))" "callback x = Later j"
    with timers_okD(3) [OF ok, of x j]
    show "j < length (formInputs (s\<lparr>now := max (now s) T\<rparr>)) \<and>
        timeout (formInputs (s\<lparr>now := max (now s) T\<rparr>) ! j) = Some (timer_id x)"
      by simp
  qed
  show ?case
  proof (cases "pick (timers s)")
    case None
    then have "\<forall>x\<in>set (timers s). T < due x" by simp
    with stop advance_stop [of s T] show ?thesis by simp
  next
    case (Some p)
    obtain tm rest where p: "p = (tm, rest)" by (cases p)
    show ?thesis
    proof (cases "due tm \<le> T")
      case True
      have "timers_ok (fire tm (s\<lparr>timers := rest, now := max (now s) (due tm)\<rparr>))"
        using ok Some p by (intro timers_ok_fire timers_ok_picked) simp_all
      from "1.IH" [OF Some p [symmetric] True this] advance_step [of s tm rest T] Some p True
      show ?thesis by simp
    next
      case False
      have "\<forall>x\<in>set (timers s). T < due x"
        using pick_min [of "timers s" tm rest] Some p False by fastforce
      with stop advance_stop [of s T] show ?thesis by simp
    qed
  qed
qed

section \<open>The submission cycle\<close>

text \<open>What picking the next timer leaves, and where the clock and the timers stand after a wait.\<close>

lemma pick_remove1: "pick ts = Some (tm, rest) \<Longrightarrow> rest = remove1 tm ts"
proof (induction ts arbitrary: tm rest)
  case Nil
  then show ?case by simp
next
  case (Cons a ts)
  show ?case
  proof (cases "pick ts")
    case None
    with Cons.prems show ?thesis by simp
  next
    case (Some q)
    obtain y ys where q: "q = (y, ys)" by (cases q)
    show ?thesis
    proof (cases "due a \<le> due y")
      case True
      with Cons.prems Some q show ?thesis by simp
    next
      case False
      with Cons.prems Some q have tm: "tm = y" and rest: "rest = a # ys" by simp_all
      from False tm have "a \<noteq> tm" by auto
      with Cons.IH [of y ys] Some q tm rest show ?thesis by simp
    qed
  qed
qed

lemma pick_filter:
  assumes "pick ts = Some (tm, rest)"
  shows "filter P rest = (if P tm then remove1 tm (filter P ts) else filter P ts)"
proof -
  have "filter P rest = remove1 tm (filter P ts)"
    using pick_remove1 [OF assms] by (simp add: filter_remove1)
  moreover have "remove1 tm (filter P ts) = filter P ts" if "\<not> P tm"
    using that by (simp add: remove1_idem)
  ultimately show ?thesis by simp
qed

lemma fire_now [simp]: "now (fire tm s) = now s"
  by (simp add: fire_def reveal_def later_def submit_sent_def submit_reset_def form_reset_def
      set_btn_innerHTML_def setTimeout_def Let_def split: action.splits)

lemma advance_now: "now (advance T s) = max (now s) T"
proof (induction T s rule: advance.induct)
  case (1 T s)
  show ?case
  proof (cases "pick (timers s)")
    case None
    then show ?thesis by (subst advance.simps) simp
  next
    case (Some p)
    obtain tm rest where p: "p = (tm, rest)" by (cases p)
    show ?thesis
    proof (cases "due tm \<le> T")
      case True
      from "1.IH" [OF Some p [symmetric] True] advance_step [of s tm rest T] Some p True
      show ?thesis by simp
    next
      case False
      with Some p show ?thesis by (subst advance.simps) simp
    qed
  qed
qed

lemma advance_remaining: "x \<in> set (timers (advance T s)) \<Longrightarrow> T < due x"
proof (induction T s rule: advance.induct)
  case (1 T s)
  show ?case
  proof (cases "pick (timers s)")
    case None
    with "1.prems" show ?thesis by (subst (asm) advance.simps) simp
  next
    case (Some p)
    obtain tm rest where p: "p = (tm, rest)" by (cases p)
    show ?thesis
    proof (cases "due tm \<le> T")
      case True
      from "1.prems" advance_step [of s tm rest T] Some p True
      have "x \<in> set (timers (advance T (fire tm (s\<lparr>timers := rest, now := max (now s) (due tm)\<rparr>))))"
        by simp
      with "1.IH" [OF Some p [symmetric] True] show ?thesis by simp
    next
      case False
      with "1.prems" Some p have "x \<in> set (timers s)"
        by (subst (asm) advance.simps) simp
      with pick_min [of "timers s" tm rest x] Some p False show ?thesis by simp
    qed
  qed
qed

lemma clearTimeout_timers:
  "timers (clearTimeout c s) = filter (\<lambda>x. Some (timer_id x) \<noteq> c) (timers s)"
  by (cases c) (simp_all add: clearTimeout_def)

lemma set_btn_facts [simp]:
  "btn_html (set_disabled d s) = btn_html s"
  "btn_disabled (set_btn_innerHTML h s) = btn_disabled s"
  "formBtn (set_disabled d s) = None \<longleftrightarrow> formBtn s = None"
  "formBtn (set_btn_innerHTML h s) = None \<longleftrightarrow> formBtn s = None"
  "formBtn s \<noteq> None \<Longrightarrow> btn_html (set_btn_innerHTML h s) = Some h"
  "formBtn s \<noteq> None \<Longrightarrow> btn_disabled (set_disabled d s) = Some d"
  by (auto simp: btn_html_def btn_disabled_def set_disabled_def set_btn_innerHTML_def
      option.map_comp comp_def)

lemma validateForm_html [simp]: "btn_html (validateForm s) = btn_html s"
  by (simp add: validateForm_def)

lemma cycle_timer_same:
  assumes "filter is_cycle (timers w) = filter is_cycle (timers u)"
    and "map timeout (formInputs w) = map timeout (formInputs u)"
  shows "cycle_timer w f d = cycle_timer u f d"
  using assms by (simp add: cycle_timer_def)

lemma cycle_step:
  assumes inv: "cycle_inv t orig vals defs quiet u" and pk: "pick (timers u) = Some (tm, rest)"
  shows "cycle_inv t orig vals defs quiet (fire tm (u\<lparr>timers := rest, now := max (now u) (due tm)\<rparr>))"
proof -
  define u1 where "u1 = u\<lparr>timers := rest, now := max (now u) (due tm)\<rparr>"
  define w where "w = fire tm u1"
  from inv have ok: "timers_ok u" and btn: "formBtn u \<noteq> None"
    and defs: "map defaultValue (formInputs u) = defs"
    and quiet: "quiet \<Longrightarrow> btn_disabled u = Some True \<and> list_all (\<lambda>x. \<not> is_later x) (timers u)"
    and stage:
      "cycle_timer u (SubmitSent (Some orig)) (t + 2000) \<and> btn_html u = Some sending_html \<and>
         map input_value (formInputs u) = vals
       \<or> cycle_timer u (SubmitReset (Some orig)) (t + 4000) \<and> btn_html u = Some sent_html \<and>
         map input_value (formInputs u) = vals \<and> t + 2000 \<le> now u
       \<or> filter is_cycle (timers u) = [] \<and> btn_html u = Some orig \<and>
         map input_value (formInputs u) = defs \<and>
         list_all (\<lambda>inp. ''has-value'' \<notin> input_classes inp) (formInputs u) \<and>
         t + 4000 \<le> now u"
    by (simp_all add: cycle_inv_def)
  have tm_in: "tm \<in> set (timers u)" and rest_sub: "set rest \<subseteq> set (timers u)"
    using pick_set [OF pk] by auto
  have ok_w: "timers_ok w"
    unfolding w_def u1_def using ok pk by (intro timers_ok_fire timers_ok_picked)
  have now_w: "now w = due tm" "now u \<le> now w"
    using timers_okD(2) [OF ok tm_in] by (simp_all add: w_def u1_def)
  have cyc_rest: "filter is_cycle rest =
      (if is_cycle tm then remove1 tm (filter is_cycle (timers u)) else filter is_cycle (timers u))"
    using pk by (rule pick_filter)
  have slots_w: "map timeout (formInputs w) = map timeout (formInputs u)"
    using fire_inputs(2) [where tm = tm and s = u1] by (simp add: w_def u1_def)
  have later_rest: "list_all (\<lambda>x. \<not> is_later x) rest" if quiet
    using quiet [OF that] rest_sub by (auto simp: list_all_iff)
  show ?thesis
    unfolding w_def [symmetric] u1_def [symmetric]
  proof (cases "callback tm")
    case (Reveal k)
    have same: "formBtn w = formBtn u" "formInputs w = formInputs u" "timers w = rest"
      using Reveal by (simp_all add: w_def u1_def fire_def reveal_def)
    have ncyc: "\<not> is_cycle tm" using Reveal by (simp add: is_cycle_def)
    have cyc: "filter is_cycle (timers w) = filter is_cycle (timers u)"
      using cyc_rest ncyc same by simp
    have ct: "cycle_timer w f d = cycle_timer u f d" for f d
      using cyc same by (intro cycle_timer_same) simp_all
    show "cycle_inv t orig vals defs quiet w"
      using ok_w btn defs quiet stage now_w later_rest same cyc ct
      by (auto simp: cycle_inv_def btn_html_def btn_disabled_def)
  next
    case (Later j)
    have nq: "\<not> quiet"
    proof
      assume quiet
      from quiet [OF this] tm_in have "\<not> is_later tm" by (auto simp: list_all_iff)
      with Later show False by (simp add: is_later_def)
    qed
    from timers_okD(3) [OF ok tm_in Later] have j: "j < length (formInputs u)"
      and slot: "timeout (formInputs u ! j) = Some (timer_id tm)" by simp_all
    have w: "w = validateForm (clearTimeout (Some (timer_id tm)) u1)"
      using Later slot by (simp add: w_def fire_def later_def u1_def)
    have "btn_html (clearTimeout (Some (timer_id tm)) u1) = btn_html u"
      by (simp add: btn_html_def u1_def)
    then have same: "formInputs w = formInputs u" "btn_html w = btn_html u"
      "formBtn w \<noteq> None"
      using btn by (simp_all add: w u1_def)
    have tim: "timers w = filter (\<lambda>x. Some (timer_id x) \<noteq> Some (timer_id tm)) rest"
      by (simp add: w clearTimeout_timers u1_def)
    have ncyc: "\<not> is_cycle tm" using Later by (simp add: is_cycle_def)
    have in_slots: "Some (timer_id tm) \<in> set (map timeout (formInputs u))"
      using j slot by (metis length_map nth_map nth_mem)
    have keep: "cycle_timer w f d" if "cycle_timer u f d" for f d
    proof -
      from that obtain c where c: "filter is_cycle (timers u) = [c]" "callback c = f" "due c = d"
        "Some (timer_id c) \<notin> set (map timeout (formInputs u))"
        by (auto simp: cycle_timer_def)
      from c(4) in_slots have ne: "timer_id c \<noteq> timer_id tm" by auto
      have "filter is_cycle (timers w) =
          filter (\<lambda>x. Some (timer_id x) \<noteq> Some (timer_id tm)) (filter is_cycle rest)"
        by (simp add: tim conj_commute)
      also have "\<dots> = [c]"
        using cyc_rest ncyc c(1) ne by simp
      finally show ?thesis
        using c same(1) by (auto simp: cycle_timer_def)
    qed
    have none: "filter is_cycle (timers w) = []" if "filter is_cycle (timers u) = []"
    proof -
      have "filter is_cycle (timers w) =
          filter (\<lambda>x. Some (timer_id x) \<noteq> Some (timer_id tm)) (filter is_cycle rest)"
        by (simp add: tim conj_commute)
      with cyc_rest ncyc that show ?thesis by simp
    qed
    show "cycle_inv t orig vals defs quiet w"
      using ok_w defs stage now_w nq same keep none
      by (auto simp: cycle_inv_def)
  next
    case (SubmitSent h)
    then have cyc_tm: "is_cycle tm" by (simp add: is_cycle_def)
    with tm_in have in_cyc: "tm \<in> set xs" if "filter is_cycle (timers u) = xs" for xs
      using that by auto
    from stage SubmitSent obtain c where c: "filter is_cycle (timers u) = [c]"
      "callback c = SubmitSent (Some orig)" "due c = t + 2000"
      and html: "btn_html u = Some sending_html" and vals: "map input_value (formInputs u) = vals"
      by (auto simp: cycle_timer_def dest: in_cyc)
    from in_cyc [OF c(1)] have tmc: "tm = c" by simp
    with c SubmitSent have h: "h = Some orig" and due: "due tm = t + 2000" by simp_all
    define new where "new = \<lparr>timer_id = next_timer u, due = due tm + 2000,
      callback = SubmitReset (Some orig)\<rparr>"
    have w: "w = setTimeout (SubmitReset (Some orig)) 2000 (set_btn_innerHTML sent_html u1)"
      using SubmitSent h by (simp add: w_def fire_def submit_sent_def)
    have tim: "timers w = rest @ [new]"
      using timers_okD(2) [OF ok tm_in]
      by (simp add: w setTimeout_def set_btn_innerHTML_def u1_def new_def max_def)
    have same: "formInputs w = formInputs u" "formBtn w \<noteq> None" "btn_html w = Some sent_html"
      "btn_disabled w = btn_disabled u"
      using btn
      by (simp_all add: w setTimeout_def u1_def btn_html_def btn_disabled_def set_btn_innerHTML_def
          option.map_comp comp_def)
    have "filter is_cycle rest = []"
      using cyc_rest cyc_tm c(1) tmc by simp
    then have cyc: "filter is_cycle (timers w) = [new]"
      by (simp add: tim new_def is_cycle_def)
    have fresh: "Some (timer_id new) \<notin> set (map timeout (formInputs w))"
    proof
      assume "Some (timer_id new) \<in> set (map timeout (formInputs w))"
      then obtain inp where "inp \<in> set (formInputs u)" "timeout inp = Some (next_timer u)"
        by (auto simp: same new_def)
      from timers_okD(1) [OF ok this] show False by simp
    qed
    have ct: "cycle_timer w (SubmitReset (Some orig)) (t + 4000)"
      using cyc fresh due by (simp add: cycle_timer_def new_def)
    have q: "btn_disabled w = Some True \<and> list_all (\<lambda>x. \<not> is_later x) (timers w)" if quiet
      using quiet [OF that] later_rest [OF that] same
      by (simp add: tim new_def is_later_def)
    show "cycle_inv t orig vals defs quiet w"
      using ok_w defs vals same ct q now_w due
      by (auto simp: cycle_inv_def)
  next
    case (SubmitReset h)
    then have cyc_tm: "is_cycle tm" by (simp add: is_cycle_def)
    with tm_in have in_cyc: "tm \<in> set xs" if "filter is_cycle (timers u) = xs" for xs
      using that by auto
    from stage SubmitReset obtain c where c: "filter is_cycle (timers u) = [c]"
      "callback c = SubmitReset (Some orig)" "due c = t + 4000"
      by (auto simp: cycle_timer_def dest: in_cyc)
    from in_cyc [OF c(1)] have tmc: "tm = c" by simp
    with c SubmitReset have h: "h = Some orig" and due: "due tm = t + 4000" by simp_all
    have w: "w = submit_reset (Some orig) u1"
      using SubmitReset h by (simp add: w_def fire_def)
    have tim: "timers w = rest"
      by (simp add: w submit_reset_def form_reset_def set_btn_innerHTML_def Let_def u1_def)
    have inputs: "map defaultValue (formInputs w) = defs" "map input_value (formInputs w) = defs"
      "list_all (\<lambda>inp. ''has-value'' \<notin> input_classes inp) (formInputs w)"
      using defs
      by (simp_all add: w submit_reset_def form_reset_def set_btn_innerHTML_def Let_def u1_def
          comp_def list_all_iff)
    have same: "formBtn w \<noteq> None" "btn_html w = Some orig" "btn_disabled w = btn_disabled u"
      using btn
      by (simp_all add: w submit_reset_def form_reset_def Let_def u1_def btn_html_def
          btn_disabled_def set_btn_innerHTML_def option.map_comp comp_def)
    have cyc: "filter is_cycle (timers w) = []"
      using cyc_rest cyc_tm c(1) tmc tim by simp
    have q: "btn_disabled w = Some True \<and> list_all (\<lambda>x. \<not> is_later x) (timers w)" if quiet
      using quiet [OF that] later_rest [OF that] same by (simp add: tim)
    show "cycle_inv t orig vals defs quiet w"
      using ok_w inputs same cyc q now_w due
      by (auto simp: cycle_inv_def)
  qed
qed

lemma cycle_stop:
  assumes inv: "cycle_inv t orig vals defs quiet u" and late: "\<forall>x\<in>set (timers u). T < due x"
  shows "cycle_inv t orig vals defs quiet (u\<lparr>now := max (now u) T\<rparr>)"
proof -
  from inv have ok: "timers_ok u" by (simp add: cycle_inv_def)
  have "timers_ok (u\<lparr>now := max (now u) T\<rparr>)"
  proof (rule timers_okI)
    fix inp t' assume "inp \<in> set (formInputs (u\<lparr>now := max (now u) T\<rparr>))" "timeout inp = Some t'"
    with timers_okD(1) [OF ok] show "t' < next_timer (u\<lparr>now := max (now u) T\<rparr>)" by simp
  next
    fix x assume "x \<in> set (timers (u\<lparr>now := max (now u) T\<rparr>))"
    with timers_okD(2) [OF ok, of x] late show "now (u\<lparr>now := max (now u) T\<rparr>) \<le> due x"
      by auto
  next
    fix x j assume "x \<in> set (timers (u\<lparr>now := max (now u) T\<rparr>))" "callback x = Later j"
    with timers_okD(3) [OF ok, of x j]
    show "j < length (formInputs (u\<lparr>now := max (now u) T\<rparr>)) \<and>
        timeout (formInputs (u\<lparr>now := max (now u) T\<rparr>) ! j) = Some (timer_id x)"
      by simp
  qed
  with inv show ?thesis
    by (auto simp: cycle_inv_def cycle_timer_def btn_html_def btn_disabled_def)
qed

lemma advance_cycle:
  "cycle_inv t orig vals defs quiet u \<Longrightarrow> cycle_inv t orig vals defs quiet (advance T u)"
proof (induction T u rule: advance.induct)
  case (1 T u)
  note inv = "1.prems"
  show ?case
  proof (cases "pick (timers u)")
    case None
    then have "\<forall>x\<in>set (timers u). T < due x" by simp
    with cycle_stop [OF inv] advance_stop [of u T] show ?thesis by simp
  next
    case (Some p)
    obtain tm rest where p: "p = (tm, rest)" by (cases p)
    show ?thesis
    proof (cases "due tm \<le> T")
      case True
      have "cycle_inv t orig vals defs quiet
          (fire tm (u\<lparr>timers := rest, now := max (now u) (due tm)\<rparr>))"
        using inv Some p by (intro cycle_step) simp_all
      from "1.IH" [OF Some p [symmetric] True this] advance_step [of u tm rest T] Some p True
      show ?thesis by simp
    next
      case False
      have "\<forall>x\<in>set (timers u). T < due x"
        using pick_min [of "timers u" tm rest] Some p False by fastforce
      with cycle_stop [OF inv] advance_stop [of u T] show ?thesis by simp
    qed
  qed
qed

lemma submit_starts_cycle:
  assumes ok: "timers_ok s" and form: "form s" and valid: "checkValidity s"
    and btn: "formBtn s = Some b" and free: "list_all (\<lambda>x. \<not> is_cycle x) (timers s)"
  shows "cycle_inv (now s) (btn_innerHTML b) (map input_value (formInputs s))
           (map defaultValue (formInputs s)) (list_all (\<lambda>x. \<not> is_later x) (timers s)) (submit s)"
proof -
  define new where "new = \<lparr>timer_id = next_timer s, due = now s + 2000,
    callback = SubmitSent (Some (btn_innerHTML b))\<rparr>"
  have st: "timers (submit s) = timers s @ [new]" "formInputs (submit s) = formInputs s"
    "formBtn (submit s) = Some \<lparr>disabled = True, btn_innerHTML = sending_html\<rparr>"
    "now (submit s) = now s"
    using form valid btn
    by (cases b, simp add: submit_def setTimeout_def set_disabled_def set_btn_innerHTML_def
        Let_def new_def)+
  have cyc: "filter is_cycle (timers (submit s)) = [new]"
    using free by (simp add: st new_def is_cycle_def list_all_iff)
  have fresh: "Some (timer_id new) \<notin> set (map timeout (formInputs (submit s)))"
  proof
    assume "Some (timer_id new) \<in> set (map timeout (formInputs (submit s)))"
    then obtain inp where "inp \<in> set (formInputs s)" "timeout inp = Some (next_timer s)"
      by (auto simp: st new_def)
    from timers_okD(1) [OF ok this] show False by simp
  qed
  have "cycle_timer (submit s) (SubmitSent (Some (btn_innerHTML b))) (now s + 2000)"
    using cyc fresh by (simp add: cycle_timer_def new_def)
  moreover have "list_all (\<lambda>x. \<not> is_later x) (timers (submit s))"
    if "list_all (\<lambda>x. \<not> is_later x) (timers s)"
    using that by (simp add: st new_def is_later_def)
  ultimately show ?thesis
    using timers_ok_submit [OF ok]
    by (simp add: cycle_inv_def st btn_html_def btn_disabled_def)
qed

lemma cycle_phases:
  assumes inv: "cycle_inv t orig vals defs quiet u" and t: "now u = t"
  shows "T < t + 2000 \<Longrightarrow>
           btn_html (advance T u) = Some sending_html \<and>
           map input_value (formInputs (advance T u)) = vals"
    and "t + 2000 \<le> T \<Longrightarrow> T < t + 4000 \<Longrightarrow>
           btn_html (advance T u) = Some sent_html \<and>
           map input_value (formInputs (advance T u)) = vals"
    and "t + 4000 \<le> T \<Longrightarrow>
           btn_html (advance T u) = Some orig \<and>
           map input_value (formInputs (advance T u)) = defs \<and>
           list_all (\<lambda>inp. ''has-value'' \<notin> input_classes inp) (formInputs (advance T u))"
    and "quiet \<Longrightarrow> btn_disabled (advance T u) = Some True"
proof -
  have inv': "cycle_inv t orig vals defs quiet (advance T u)"
    using inv by (rule advance_cycle)
  have now': "now (advance T u) = max t T"
    by (simp add: advance_now t)
  have gone: "\<not> cycle_timer (advance T u) f d" if "d \<le> T" for f d
  proof
    assume "cycle_timer (advance T u) f d"
    then obtain c where "filter is_cycle (timers (advance T u)) = [c]" "due c = d"
      by (auto simp: cycle_timer_def)
    then have "c \<in> set (filter is_cycle (timers (advance T u)))"
      by simp
    then have "c \<in> set (timers (advance T u))"
      by simp
    from advance_remaining [OF this] \<open>due c = d\<close> that show False by simp
  qed
  show "T < t + 2000 \<Longrightarrow>
           btn_html (advance T u) = Some sending_html \<and>
           map input_value (formInputs (advance T u)) = vals"
    using inv' now' by (auto simp: cycle_inv_def)
  show "t + 2000 \<le> T \<Longrightarrow> T < t + 4000 \<Longrightarrow>
           btn_html (advance T u) = Some sent_html \<and>
           map input_value (formInputs (advance T u)) = vals"
    using inv' now' gone [of "t + 2000"] by (auto simp: cycle_inv_def)
  show "t + 4000 \<le> T \<Longrightarrow>
           btn_html (advance T u) = Some orig \<and>
           map input_value (formInputs (advance T u)) = defs \<and>
           list_all (\<lambda>inp. ''has-value'' \<notin> input_classes inp) (formInputs (advance T u))"
    using inv' gone [of "t + 2000"] gone [of "t + 4000"] by (auto simp: cycle_inv_def)
  show "quiet \<Longrightarrow> btn_disabled (advance T u) = Some True"
    using inv' by (simp add: cycle_inv_def)
qed

text \<open>
  C5, as amended. In a well-formed timer state a valid form is submitted while no earlier
  submission is on its way, and no other event follows. The submission disables the
  button. Until 2000 ms have passed the button shows the sending markup, from then until
  4000 ms have passed the sent markup, the inputs holding their values; from 4000 ms on
  the inputs hold their default values and no longer carry \<^verbatim>\<open>has-value\<close>, and the
  button shows its original markup again. The cycle never removes the \<^verbatim>\<open>disabled\<close>
  attribute: when no debounced validation was pending at the submission, the button is
  disabled at each of these times, whatever it was before the submission.
\<close>

theorem submit_cycle:
  assumes "timers_ok s" and "form s" and "checkValidity s" and "formBtn s = Some b"
    and "list_all (\<lambda>x. \<not> is_cycle x) (timers s)"
    and "T0 < now s + 2000"
    and "now s + 2000 \<le> T1" and "T1 < now s + 4000"
    and "now s + 4000 \<le> T2"
  shows "btn_disabled (submit s) = Some True \<and>
         btn_html (advance T0 (submit s)) = Some sending_html \<and>
         map input_value (formInputs (advance T0 (submit s))) = map input_value (formInputs s) \<and>
         btn_html (advance T1 (submit s)) = Some sent_html \<and>
         map input_value (formInputs (advance T1 (submit s))) = map input_value (formInputs s) \<and>
         btn_html (advance T2 (submit s)) = Some (btn_innerHTML b) \<and>
         map input_value (formInputs (advance T2 (submit s))) = map defaultValue (formInputs s) \<and>
         list_all (\<lambda>inp. ''has-value'' \<notin> input_classes inp) (formInputs (advance T2 (submit s))) \<and>
         (list_all (\<lambda>x. \<not> is_later x) (timers s) \<longrightarrow>
            btn_disabled (advance T0 (submit s)) = Some True \<and>
            btn_disabled (advance T1 (submit s)) = Some True \<and>
            btn_disabled (advance T2 (submit s)) = Some True)"
proof -
  note inv = submit_starts_cycle [OF assms(1-5)]
  have t: "now (submit s) = now s"
    by (simp add: submit_def setTimeout_def set_disabled_def set_btn_innerHTML_def Let_def)
  have "btn_disabled (submit s) = Some True"
    using inv by (auto simp: cycle_inv_def submit_def setTimeout_def set_disabled_def
        set_btn_innerHTML_def Let_def btn_disabled_def assms(2-4))
  with cycle_phases(1) [OF inv t assms(6)] cycle_phases(2) [OF inv t assms(7,8)]
    cycle_phases(3) [OF inv t assms(9)] cycle_phases(4) [OF inv t]
  show ?thesis by simp
qed

text \<open>The amended C5 on the filled-in example document, where no timer is pending.\<close>

theorem submit_cycle_witness:
  "timers_ok filled_dom \<and> form filled_dom \<and> checkValidity filled_dom \<and>
   formBtn filled_dom = Some \<lparr>disabled = False, btn_innerHTML = ''Send Message''\<rparr> \<and>
   list_all (\<lambda>x. \<not> is_cycle x) (timers filled_dom) \<and>
   list_all (\<lambda>x. \<not> is_later x) (timers filled_dom) \<and>
   btn_html (advance 100 (submit filled_dom)) = Some sending_html \<and>
   btn_html (advance 2000 (submit filled_dom)) = Some sent_html \<and>
   btn_html (advance 4000 (submit filled_dom)) = Some ''Send Message'' \<and>
   map input_value (formInputs (advance 4000 (submit filled_dom))) = [[], []] \<and>
   btn_disabled (advance 4000 (submit filled_dom)) = Some True"
proof -
  have hyps: "timers_ok filled_dom" "form filled_dom" "checkValidity filled_dom"
    "formBtn filled_dom = Some \<lparr>disabled = False, btn_innerHTML = ''Send Message''\<rparr>"
    "list_all (\<lambda>x. \<not> is_cycle x) (timers filled_dom)"
    by (simp_all add: filled_dom_def example_dom_def timers_ok_def slot_ok_def
        checkValidity_def input_valid_def)
  have more: "list_all (\<lambda>x. \<not> is_later x) (timers filled_dom)" "now filled_dom = 0"
    "map defaultValue (formInputs filled_dom) = [[], []]"
    by (simp_all add: filled_dom_def example_dom_def)
  from submit_cycle [OF hyps, of 100 2000 4000] hyps more show ?thesis by simp
qed

text \<open>
  C5 as stated fails on the filled-in example document: the button is enabled before the
  submission and disabled after the cycle.
\<close>

theorem submit_leaves_disabled:
  "checkValidity filled_dom \<and> btn_disabled filled_dom = Some False \<and>
   btn_disabled (advance 4000 (advance 2000 (submit filled_dom))) = Some True"
  by (simp add: filled_dom_def example_dom_def checkValidity_def input_valid_def btn_disabled_def
        advance.simps submit_def submit_sent_def submit_reset_def form_reset_def fire_def
        setTimeout_def set_disabled_def set_btn_innerHTML_def Let_def)

text \<open>
  A submission within 300 ms of an input event: the markup and the inputs go through the
  same cycle, and the pending validation enables the button in the meantime.
\<close>

lemma submit_after_typing:
  "btn_disabled (input_event 0 ''Anna'' filled_dom) = Some False \<and>
   checkValidity (input_event 0 ''Anna'' filled_dom) \<and>
   btn_html (advance 4000 (submit (input_event 0 ''Anna'' filled_dom))) = Some ''Send Message'' \<and>
   map input_value (formInputs (advance 4000 (submit (input_event 0 ''Anna'' filled_dom)))) = [[], []] \<and>
   btn_disabled (advance 4000 (submit (input_event 0 ''Anna'' filled_dom))) = Some False"
  by (simp add: filled_dom_def example_dom_def input_event_def debounced_def setTimeout_def
      clearTimeout_def Let_def advance.simps fire_def later_def validateForm_def set_disabled_def
      checkValidity_def input_valid_def btn_disabled_def btn_html_def submit_def submit_sent_def
      submit_reset_def form_reset_def set_btn_innerHTML_def)

text \<open>
  Why no earlier submission may be on its way. After a submission within 300 ms of an
  input event the pending validation enables the button while it shows the sending
  markup. A second submission at that moment takes the sending markup for the original
  one, and its reset, the last to run, leaves the button showing it.
\<close>

lemma submit_twice:
  "btn_disabled (advance 300 (submit (input_event 0 ''Anna'' filled_dom))) = Some False \<and>
   checkValidity (advance 300 (submit (input_event 0 ''Anna'' filled_dom))) \<and>
   timers_ok (advance 300 (submit (input_event 0 ''Anna'' filled_dom))) \<and>
   map is_cycle (timers (advance 300 (submit (input_event 0 ''Anna'' filled_dom)))) = [True] \<and>
   btn_html (advance 4300 (submit (advance 300 (submit (input_event 0 ''Anna'' filled_dom)))))
     = Some sending_html"
  by (simp add: filled_dom_def example_dom_def input_event_def debounced_def setTimeout_def
      clearTimeout_def Let_def advance.simps fire_def later_def validateForm_def set_disabled_def
      checkValidity_def input_valid_def btn_disabled_def btn_html_def submit_def submit_sent_def
      submit_reset_def form_reset_def set_btn_innerHTML_def is_cycle_def
      timers_ok_def slot_ok_def timer_ok_def)

end
